theory Spec2Isabelle
  imports Complex_Main "HOL-Library.Product_Lexorder"
begin

section \<open>Python strings\<close>

text \<open>
  The program works on Python \<^verbatim>\<open>str\<close> values. They are modelled as \<^typ>\<open>string\<close>: a list of
  characters with code points below 256. Scores are Python floats that only ever hold
  multiples of one half, or a quotient of two integers; they are modelled as exact rationals.
\<close>

text \<open>\<^verbatim>\<open>str.isspace\<close> on one character, which is also what \<^verbatim>\<open>\s\<close> matches in a \<^verbatim>\<open>str\<close> pattern.\<close>

definition py_isspace :: "char \<Rightarrow> bool" where
  "py_isspace c = (of_char c \<in> {9, 10, 11, 12, 13, 28, 29, 30, 31, 32, 133, 160 :: nat})"

text \<open>\<^verbatim>\<open>s.strip()\<close>: leading and trailing whitespace removed.\<close>

definition strip :: "string \<Rightarrow> string" where
  "strip s = rev (dropWhile py_isspace (rev (dropWhile py_isspace s)))"

text \<open>\<^verbatim>\<open>s.startswith(p)\<close>.\<close>

fun startswith :: "string \<Rightarrow> string \<Rightarrow> bool" where
  "startswith s [] = True"
| "startswith [] (p # ps) = False"
| "startswith (c # cs) (p # ps) = (c = p \<and> startswith cs ps)"

text \<open>\<^verbatim>\<open>sub in s\<close>: \<open>sub\<close> occurs in \<open>s\<close> as a contiguous substring.\<close>

fun contains :: "string \<Rightarrow> string \<Rightarrow> bool" where
  "contains [] sub = (sub = [])"
| "contains (c # cs) sub = (startswith (c # cs) sub \<or> contains cs sub)"

text \<open>
  \<^verbatim>\<open>s.find(sub)\<close>, as the text that follows the first occurrence of \<open>sub\<close>
  (\<open>None\<close> where Python returns -1).
\<close>

fun after_first :: "string \<Rightarrow> string \<Rightarrow> string option" where
  "after_first sub [] = (if sub = [] then Some [] else None)"
| "after_first sub (c # cs) =
     (if startswith (c # cs) sub then Some (drop (length sub) (c # cs))
      else after_first sub cs)"

lemma after_first_length: "after_first sub s = Some r \<Longrightarrow> length r \<le> length s"
  by (induction s) (auto split: if_splits)

text \<open>\<^verbatim>\<open>s.count(sub)\<close> for a non-empty \<open>sub\<close>: the occurrences, left to right, not overlapping.\<close>

function count_sub :: "string \<Rightarrow> string \<Rightarrow> nat" where
  "count_sub [] sub = 0"
| "count_sub (c # cs) sub =
     (if sub \<noteq> [] \<and> startswith (c # cs) sub
      then Suc (count_sub (drop (length sub) (c # cs)) sub)
      else count_sub cs sub)"
  by pat_completeness auto
termination
  by (relation "measure (\<lambda>(s, sub). length s)") (auto simp: Suc_le_eq)

text \<open>\<^verbatim>\<open>str(n)\<close> for a count.\<close>

fun str_nat :: "nat \<Rightarrow> string" where
  "str_nat n =
     (if n < 10 then [char_of (48 + n)]
      else str_nat (n div 10) @ [char_of (48 + n mod 10)])"

declare str_nat.simps [simp del]

section \<open>The regular expressions of the indicator scorer\<close>

text \<open>
  \<^verbatim>\<open>re.search(r'^\s{2}', code, re.MULTILINE)\<close>. With \<^verbatim>\<open>MULTILINE\<close>, \<^verbatim>\<open>^\<close> matches at
  the start of the text and right after every newline; \<open>bol\<close> says whether the scan stands
  at such a place.
\<close>

fun search_indent :: "bool \<Rightarrow> string \<Rightarrow> bool" where
  "search_indent bol (c # d # cs) =
     ((bol \<and> py_isspace c \<and> py_isspace d) \<or> search_indent (c = CHR 0x0A) (d # cs))"
| "search_indent bol cs = False"

text \<open>
  \<^verbatim>\<open>len(re.findall(r'<!--.*?-->', code, re.DOTALL))\<close>: a match starts at \<^verbatim>\<open><!--\<close> and,
  the star being lazy and the dot matching newlines too, ends with the first \<^verbatim>\<open>-->\<close>
  after it; the search goes on behind the match.
\<close>

function count_comments :: "string \<Rightarrow> nat" where
  "count_comments [] = 0"
| "count_comments (c # cs) =
     (if startswith (c # cs) ''<!--'' then
        (case after_first ''-->'' (drop 4 (c # cs)) of
           None \<Rightarrow> count_comments cs
         | Some rest \<Rightarrow> Suc (count_comments rest))
      else count_comments cs)"
  by pat_completeness auto
termination
  by (relation "measure length") (auto dest!: after_first_length)

text \<open>
  \<^verbatim>\<open>re.search(r'class="[a-z-]+"', code)\<close>: somewhere \<^verbatim>\<open>class="\<close> is followed by one or
  more lowercase letters or hyphens and then a double quote.
\<close>

definition kebab_char :: "char \<Rightarrow> bool" where
  "kebab_char c = ((97 \<le> (of_char c :: nat) \<and> (of_char c :: nat) \<le> 122) \<or> c = CHR ''-'')"

definition kebab_here :: "string \<Rightarrow> bool" where
  \<open>kebab_here s =
     (startswith s ''class="'' \<and>
      takeWhile kebab_char (drop 7 s) \<noteq> [] \<and>
      startswith (dropWhile kebab_char (drop 7 s)) ''"'')\<close>

fun search_kebab :: "string \<Rightarrow> bool" where
  "search_kebab [] = False"
| "search_kebab (c # cs) = (kebab_here (c # cs) \<or> search_kebab cs)"

section \<open>The indicator scorer\<close>

definition bootstrap_classes :: "string list" where
  "bootstrap_classes =
     [''container'', ''row'', ''col-'', ''bg-'', ''text-'', ''mt-'', ''mb-'', ''p-'']"

text \<open>
  The body of \<^verbatim>\<open>check_ai_indicators\<close> up to its \<^verbatim>\<open>return\<close>: the accumulator
  \<open>ai_score\<close> and the list \<open>indicators\<close> go through the ten checks in source order.
\<close>

definition ai_indicators_raw :: "string \<Rightarrow> rat \<times> string list" where
  \<open>ai_indicators_raw code =
    (let ai_score = 0; indicators = [];
         (ai_score, indicators) =
           (if search_indent True code
            then (ai_score + 1, indicators @ [''Consistent 2-space indentation''])
            else (ai_score, indicators));
         comment_count = count_comments code;
         (ai_score, indicators) =
           (if comment_count \<ge> 3
            then (ai_score + 3 / 2, indicators @
                    [''Multiple descriptive comments ('' @ str_nat comment_count @ '' found)''])
            else (ai_score, indicators));
         (ai_score, indicators) =
           (if contains code ''<header>'' \<or> contains code ''<section>''
               \<or> contains code ''<article>''
            then (ai_score + 1 / 2, indicators @ [''Semantic HTML5 elements''])
            else (ai_score, indicators));
         bootstrap_count = length (filter (\<lambda>cls. contains code cls) bootstrap_classes);
         (ai_score, indicators) =
           (if bootstrap_count \<ge> 6
            then (ai_score + 1, indicators @
                    [''Extensive Bootstrap utility classes ('' @ str_nat bootstrap_count
                       @ '' types)''])
            else (ai_score, indicators));
         (ai_score, indicators) =
           (if contains code ''<style>'' \<and> contains code ''@media''
            then (ai_score + 1, indicators @ [''Custom CSS with media queries''])
            else (ai_score, indicators));
         (ai_score, indicators) =
           (if search_kebab code
            then (ai_score + 1 / 2, indicators @ [''Consistent kebab-case naming''])
            else (ai_score, indicators));
         (ai_score, indicators) =
           (if contains code ''<!DOCTYPE html>'' \<and> contains code ''viewport''
            then (ai_score + 1, indicators @ [''Proper HTML5 structure with meta viewport''])
            else (ai_score, indicators));
         (ai_score, indicators) =
           (if contains code ''cdn.jsdelivr.net'' \<or> contains code ''cdnjs.cloudflare.com''
            then (ai_score + 1, indicators @ [''CDN links for libraries''])
            else (ai_score, indicators));
         (ai_score, indicators) =
           (if count_sub code ''<div class="row'' \<ge> 2
            then (ai_score + 1, indicators @ [''Complex nested grid structure''])
            else (ai_score, indicators));
         (ai_score, indicators) =
           (if contains code ''lang="en"'' \<and> contains code ''charset="UTF-8"''
            then (ai_score + 1 / 2, indicators @ [''Accessibility and encoding attributes''])
            else (ai_score, indicators))
     in (ai_score, indicators))\<close>

text \<open>\<^verbatim>\<open>return min(ai_score, 10), indicators\<close>.\<close>

definition check_ai_indicators :: "string \<Rightarrow> rat \<times> string list" where
  "check_ai_indicators code =
     (case ai_indicators_raw code of (ai_score, indicators) \<Rightarrow> (min ai_score 10, indicators))"

text \<open>
  The battery as the specification describes it: an ordered list of ten checks, each a
  condition on the raw text, a weight and a label.
\<close>

definition indicator_checks :: "string \<Rightarrow> (bool \<times> rat \<times> string) list" where
  \<open>indicator_checks code =
     [(search_indent True code, 1, ''Consistent 2-space indentation''),
      (count_comments code \<ge> 3, 3 / 2,
         ''Multiple descriptive comments ('' @ str_nat (count_comments code) @ '' found)''),
      (contains code ''<header>'' \<or> contains code ''<section>'' \<or> contains code ''<article>'',
         1 / 2, ''Semantic HTML5 elements''),
      (length (filter (\<lambda>cls. contains code cls) bootstrap_classes) \<ge> 6, 1,
         ''Extensive Bootstrap utility classes (''
           @ str_nat (length (filter (\<lambda>cls. contains code cls) bootstrap_classes))
           @ '' types)''),
      (contains code ''<style>'' \<and> contains code ''@media'', 1,
         ''Custom CSS with media queries''),
      (search_kebab code, 1 / 2, ''Consistent kebab-case naming''),
      (contains code ''<!DOCTYPE html>'' \<and> contains code ''viewport'', 1,
         ''Proper HTML5 structure with meta viewport''),
      (contains code ''cdn.jsdelivr.net'' \<or> contains code ''cdnjs.cloudflare.com'', 1,
         ''CDN links for libraries''),
      (count_sub code ''<div class="row'' \<ge> 2, 1, ''Complex nested grid structure''),
      (contains code ''lang="en"'' \<and> contains code ''charset="UTF-8"'', 1 / 2,
         ''Accessibility and encoding attributes'')]\<close>

definition triggered :: "(bool \<times> rat \<times> string) list \<Rightarrow> (bool \<times> rat \<times> string) list" where
  "triggered cs = filter fst cs"

definition weight :: "bool \<times> rat \<times> string \<Rightarrow> rat" where
  "weight c = fst (snd c)"

definition label :: "bool \<times> rat \<times> string \<Rightarrow> string" where
  "label c = snd (snd c)"

text \<open>The weight that belongs to a label; two labels carry a count after a fixed prefix.\<close>

definition label_weight :: "string \<Rightarrow> rat" where
  "label_weight l =
     (if l = ''Consistent 2-space indentation'' then 1
      else if startswith l ''Multiple descriptive comments ('' then 3 / 2
      else if l = ''Semantic HTML5 elements'' then 1 / 2
      else if startswith l ''Extensive Bootstrap utility classes ('' then 1
      else if l = ''Custom CSS with media queries'' then 1
      else if l = ''Consistent kebab-case naming'' then 1 / 2
      else if l = ''Proper HTML5 structure with meta viewport'' then 1
      else if l = ''CDN links for libraries'' then 1
      else if l = ''Complex nested grid structure'' then 1
      else if l = ''Accessibility and encoding attributes'' then 1 / 2
      else 0)"

text \<open>
  A text on which every one of the ten checks triggers.
\<close>

definition all_indicators_text :: string where
  \<open>all_indicators_text =
     ''<!DOCTYPE html>\<newline>  <html lang="en"><meta charset="UTF-8" name="viewport"><header><style>@media</style> cdn.jsdelivr.net <!--a--><!--b--><!--c--><div class="row"><div class="row"> container col- bg- text- mt- mb- p-''\<close>

text \<open>
  Position \<open>p\<close> of \<open>s\<close> starts a line (the text itself when \<open>bol\<close> holds, or the character
  before is a newline) and holds two whitespace characters in a row.
\<close>

definition indent_at :: "bool \<Rightarrow> string \<Rightarrow> nat \<Rightarrow> bool" where
  "indent_at bol s p =
     (Suc p < length s \<and> (if p = 0 then bol else s ! (p - 1) = CHR 0x0A)
      \<and> py_isspace (s ! p) \<and> py_isspace (s ! Suc p))"

section \<open>The structure analyzer\<close>

text \<open>The exceptions the modelled code can raise.\<close>

datatype error = ParserRejectedMarkup | ValueError | IndexError

text \<open>
  \<^verbatim>\<open>try: ... except: ...\<close> with a bare \<^verbatim>\<open>except\<close>: whatever the body raises, the handler's
  value is returned.
\<close>

definition try_except :: "error + 'a \<Rightarrow> error + 'a \<Rightarrow> error + 'a" where
  "try_except body handler = (case body of Inl e \<Rightarrow> handler | Inr v \<Rightarrow> Inr v)"

text \<open>
  What the analyzer reads of the parsed document: its elements in document order, each
  with its tag name and its attributes as written (name and value, in source order).
  \<^verbatim>\<open>find\<close> and \<^verbatim>\<open>find_all\<close>, called on the document itself, visit every element of the
  tree, so the nesting of the elements does not matter to them.
\<close>

record element =
  tag_name :: string
  tag_attrs :: "(string \<times> string) list"

text \<open>\<^verbatim>\<open>tag.attrs.get(k)\<close>: of an attribute written twice, the later value is kept.\<close>

definition attr_get :: "element \<Rightarrow> string \<Rightarrow> string option" where
  "attr_get e k = map_of (rev (tag_attrs e)) k"

text \<open>
  The value of \<^verbatim>\<open>class\<close> is kept as the list of its whitespace-separated tokens
  (\<^verbatim>\<open>re.findall(r'\S+', value)\<close>).
\<close>

function split_ws :: "string \<Rightarrow> string list" where
  "split_ws [] = []"
| "split_ws (c # cs) =
     (if py_isspace c then split_ws cs
      else (c # takeWhile (\<lambda>x. \<not> py_isspace x) cs)
             # split_ws (dropWhile (\<lambda>x. \<not> py_isspace x) cs))"
  by pat_completeness auto
termination
  by (relation "measure length") (auto simp: le_imp_less_Suc length_dropWhile_le)

definition class_value :: "element \<Rightarrow> string list option" where
  "class_value e = map_option split_ws (attr_get e ''class'')"

text \<open>\<^verbatim>\<open>' '.join(tokens)\<close>.\<close>

fun join_space :: "string list \<Rightarrow> string" where
  "join_space [] = []"
| "join_space [t] = t"
| "join_space (t # ts) = t @ '' '' @ join_space ts"

text \<open>
  How a search by \<^verbatim>\<open>class_=f\<close> matches an element: without the attribute, \<open>f\<close> is called on
  \<^verbatim>\<open>None\<close>; with it, on every token and then on the tokens joined by single spaces.
\<close>

definition strainer_matches :: "(string option \<Rightarrow> bool) \<Rightarrow> string list option \<Rightarrow> bool" where
  "strainer_matches f v =
     (case v of
        None \<Rightarrow> f None
      | Some tokens \<Rightarrow> list_ex (\<lambda>t. f (Some t)) tokens \<or> f (Some (join_space tokens)))"

definition find_all :: "element list \<Rightarrow> string \<Rightarrow> (string option \<Rightarrow> bool) \<Rightarrow> element list" where
  "find_all soup nm f = filter (\<lambda>e. tag_name e = nm \<and> strainer_matches f (class_value e)) soup"

definition find_tag :: "element list \<Rightarrow> string \<Rightarrow> (string option \<Rightarrow> bool) \<Rightarrow> element option" where
  "find_tag soup nm f = (case find_all soup nm f of [] \<Rightarrow> None | e # es \<Rightarrow> Some e)"

text \<open>\<^verbatim>\<open>lambda x: x and sub in x\<close>, read as a truth value.\<close>

definition truthy_and_in :: "string \<Rightarrow> string option \<Rightarrow> bool" where
  "truthy_and_in sub x = (case x of None \<Rightarrow> False | Some s \<Rightarrow> s \<noteq> [] \<and> contains s sub)"

text \<open>The dictionary \<^verbatim>\<open>results\<close> of \<^verbatim>\<open>analyze_code_structure\<close>, with its keys in source order.\<close>

record structure_facts =
  has_doctype :: bool
  has_bootstrap_css :: bool
  has_bootstrap_js :: bool
  has_container :: bool
  row_count :: nat
  has_custom_css :: bool
  has_media_query :: bool
  col_elements :: nat

text \<open>
  The derived \<^verbatim>\<open>structure_score\<close> of the report: Python's \<^verbatim>\<open>sum\<close> of eight booleans.
\<close>

definition structure_score :: "structure_facts \<Rightarrow> nat" where
  "structure_score s =
     sum_list (map of_bool
       [has_doctype s,
        has_bootstrap_css s,
        has_bootstrap_js s,
        has_container s,
        row_count s \<ge> 2,
        has_custom_css s,
        has_media_query s,
        col_elements s \<ge> 6])"

text \<open>
  \<^verbatim>\<open>analyze_code_structure\<close>. The parser \<^verbatim>\<open>BeautifulSoup(code, 'html.parser')\<close> is a library
  call that either raises or returns the document; it is a parameter here. The result
  \<open>None\<close> is the sentinel of the \<^verbatim>\<open>except\<close> branch.
\<close>

definition analyze_code_structure ::
  "(string \<Rightarrow> error + element list) \<Rightarrow> string \<Rightarrow> error + structure_facts option" where
  "analyze_code_structure BeautifulSoup code =
     try_except
       (case BeautifulSoup code of
          Inl e \<Rightarrow> Inl e
        | Inr soup \<Rightarrow>
            Inr (Some
              \<lparr>has_doctype = startswith (strip code) ''<!DOCTYPE html>'',
               has_bootstrap_css = (contains code ''bootstrap'' \<and> contains code ''.css''),
               has_bootstrap_js = (contains code ''bootstrap'' \<and> contains code ''.js''),
               has_container = (find_tag soup ''div'' (truthy_and_in ''container'') \<noteq> None),
               row_count = length (find_all soup ''div'' (truthy_and_in ''row'')),
               has_custom_css = contains code ''<style>'',
               has_media_query = contains code ''@media'',
               col_elements = length (find_all soup ''div'' (truthy_and_in ''col-''))\<rparr>))
       (Inr None)"

text \<open>
  The specification's wording of the three class facts: an element carries a class token
  that contains \<open>sub\<close>; an element's class attribute contains \<open>sub\<close>.
\<close>

definition class_token_contains :: "string \<Rightarrow> element \<Rightarrow> bool" where
  "class_token_contains sub e =
     (case attr_get e ''class'' of
        None \<Rightarrow> False
      | Some v \<Rightarrow> list_ex (\<lambda>t. contains t sub) (split_ws v))"

definition class_attr_contains :: "string \<Rightarrow> element \<Rightarrow> bool" where
  "class_attr_contains sub e =
     (case attr_get e ''class'' of None \<Rightarrow> False | Some v \<Rightarrow> contains v sub)"

section \<open>The similarity scorer\<close>

text \<open>
  \<^verbatim>\<open>calculate_similarity\<close> is \<^verbatim>\<open>SequenceMatcher(None, text1.strip(), text2.strip()).ratio()\<close>
  of Python's \<^verbatim>\<open>difflib\<close>. The matcher is modelled as the library computes it: the index
  \<^verbatim>\<open>b2j\<close> of the second text with its popular characters removed, the search for a
  longest matching block, the work list of \<^verbatim>\<open>get_matching_blocks\<close>, and the ratio.
  Reading a sequence at an index outside it raises \<^verbatim>\<open>IndexError\<close>.
\<close>

definition getitem :: "'a list \<Rightarrow> nat \<Rightarrow> error + 'a" where
  "getitem xs i = (if i < length xs then Inr (xs ! i) else Inl IndexError)"

text \<open>A block \<^verbatim>\<open>Match(a=i, b=j, size=k)\<close>: \<^verbatim>\<open>a[i:i+k] == b[j:j+k]\<close>.\<close>

type_synonym block = "nat \<times> nat \<times> nat"

subsection \<open>\<^verbatim>\<open>__chain_b\<close>\<close>

text \<open>The indices of \<open>b\<close> that hold \<open>elt\<close>, in increasing order.\<close>

definition indices :: "string \<Rightarrow> char \<Rightarrow> nat list" where
  "indices b elt = filter (\<lambda>i. b ! i = elt) [0..<length b]"

text \<open>
  With \<^verbatim>\<open>autojunk\<close> (the default) and a text of 200 characters or more, a character that
  occurs more than \<^verbatim>\<open>n // 100 + 1\<close> times is popular.
\<close>

definition popular :: "string \<Rightarrow> char \<Rightarrow> bool" where
  "popular b elt = (length b \<ge> 200 \<and> length (indices b elt) > length b div 100 + 1)"

text \<open>
  \<^verbatim>\<open>b2j.get(elt, [])\<close> once \<^verbatim>\<open>__chain_b\<close> has run: the entries of the popular characters
  are deleted. \<^verbatim>\<open>isjunk\<close> is \<^verbatim>\<open>None\<close>, so no character is junk.
\<close>

definition chain_b :: "string \<Rightarrow> char \<Rightarrow> nat list" where
  "chain_b b elt = (if popular b elt then [] else indices b elt)"

definition isbjunk :: "char \<Rightarrow> bool" where
  "isbjunk c = False"

subsection \<open>\<^verbatim>\<open>find_longest_match\<close>\<close>

text \<open>
  The inner loop \<^verbatim>\<open>for j in b2j.get(a[i], nothing)\<close> of row \<open>i\<close>. \<open>j2len\<close> holds, for the
  row before, the length of the longest match that ends at each \<open>j\<close>; \<^verbatim>\<open>j2len.get(j-1, 0)\<close>
  finds no key -1.
\<close>

fun row_scan ::
  "nat \<Rightarrow> nat \<Rightarrow> nat \<Rightarrow> (nat \<rightharpoonup> nat) \<Rightarrow> nat list \<Rightarrow> (nat \<rightharpoonup> nat) \<times> block
     \<Rightarrow> (nat \<rightharpoonup> nat) \<times> block" where
  "row_scan i blo bhi j2len [] (newj2len, best) = (newj2len, best)"
| "row_scan i blo bhi j2len (j # js) (newj2len, (besti, bestj, bestsize)) =
     (if j < blo then row_scan i blo bhi j2len js (newj2len, (besti, bestj, bestsize))
      else if j \<ge> bhi then (newj2len, (besti, bestj, bestsize))
      else
        (let k = (if j = 0 then 0 else case j2len (j - 1) of None \<Rightarrow> 0 | Some v \<Rightarrow> v) + 1
         in if k > bestsize
            then row_scan i blo bhi j2len js (newj2len(j \<mapsto> k), (i + 1 - k, j + 1 - k, k))
            else row_scan i blo bhi j2len js (newj2len(j \<mapsto> k), (besti, bestj, bestsize))))"

text \<open>The outer loop \<^verbatim>\<open>for i in range(alo, ahi)\<close>, over the list of its indices.\<close>

fun scan_rows ::
  "string \<Rightarrow> (char \<Rightarrow> nat list) \<Rightarrow> nat \<Rightarrow> nat \<Rightarrow> nat list \<Rightarrow> (nat \<rightharpoonup> nat) \<Rightarrow> block
     \<Rightarrow> error + block" where
  "scan_rows a b2j blo bhi [] j2len best = Inr best"
| "scan_rows a b2j blo bhi (i # rows) j2len best =
     (case getitem a i of
        Inl e \<Rightarrow> Inl e
      | Inr elt \<Rightarrow>
          (case row_scan i blo bhi j2len (b2j elt) (Map.empty, best) of
             (newj2len, best') \<Rightarrow> scan_rows a b2j blo bhi rows newj2len best'))"

text \<open>
  The loops that extend the block to the left and to the right while the next characters
  agree and \<open>ok\<close> holds of the one in \<open>b\<close> (\<open>ok\<close> is "not junk" in the first pair of loops and
  "junk" in the second).
\<close>

function extend_left ::
  "(char \<Rightarrow> bool) \<Rightarrow> string \<Rightarrow> string \<Rightarrow> nat \<Rightarrow> nat \<Rightarrow> block \<Rightarrow> error + block" where
  "extend_left ok a b alo blo (besti, bestj, bestsize) =
     (if besti > alo \<and> bestj > blo then
        (case getitem b (bestj - 1) of
           Inl e \<Rightarrow> Inl e
         | Inr y \<Rightarrow>
             if ok y then
               (case getitem a (besti - 1) of
                  Inl e \<Rightarrow> Inl e
                | Inr x \<Rightarrow>
                    if x = y
                    then extend_left ok a b alo blo (besti - 1, bestj - 1, bestsize + 1)
                    else Inr (besti, bestj, bestsize))
             else Inr (besti, bestj, bestsize))
      else Inr (besti, bestj, bestsize))"
  by pat_completeness auto
termination
  by (relation "measure (\<lambda>(ok, a, b, alo, blo, besti, bestj, bestsize). besti)") auto

function extend_right ::
  "(char \<Rightarrow> bool) \<Rightarrow> string \<Rightarrow> string \<Rightarrow> nat \<Rightarrow> nat \<Rightarrow> block \<Rightarrow> error + block" where
  "extend_right ok a b ahi bhi (besti, bestj, bestsize) =
     (if besti + bestsize < ahi \<and> bestj + bestsize < bhi then
        (case getitem b (bestj + bestsize) of
           Inl e \<Rightarrow> Inl e
         | Inr y \<Rightarrow>
             if ok y then
               (case getitem a (besti + bestsize) of
                  Inl e \<Rightarrow> Inl e
                | Inr x \<Rightarrow>
                    if x = y
                    then extend_right ok a b ahi bhi (besti, bestj, bestsize + 1)
                    else Inr (besti, bestj, bestsize))
             else Inr (besti, bestj, bestsize))
      else Inr (besti, bestj, bestsize))"
  by pat_completeness auto
termination
  by (relation "measure (\<lambda>(ok, a, b, ahi, bhi, besti, bestj, bestsize). ahi - (besti + bestsize))")
     auto

declare extend_left.simps [simp del] extend_right.simps [simp del]

text \<open>Sequencing of steps that may raise.\<close>

definition bind :: "error + 'a \<Rightarrow> ('a \<Rightarrow> error + 'b) \<Rightarrow> error + 'b" where
  "bind m f = (case m of Inl e \<Rightarrow> Inl e | Inr v \<Rightarrow> f v)"

definition find_longest_match ::
  "string \<Rightarrow> string \<Rightarrow> nat \<Rightarrow> nat \<Rightarrow> nat \<Rightarrow> nat \<Rightarrow> error + block" where
  "find_longest_match a b alo ahi blo bhi =
     bind (scan_rows a (chain_b b) blo bhi [alo..<ahi] Map.empty (alo, blo, 0)) (\<lambda>best.
     bind (extend_left (\<lambda>c. \<not> isbjunk c) a b alo blo best) (\<lambda>best.
     bind (extend_right (\<lambda>c. \<not> isbjunk c) a b ahi bhi best) (\<lambda>best.
     bind (extend_left isbjunk a b alo blo best) (\<lambda>best.
     extend_right isbjunk a b ahi bhi best))))"

subsection \<open>Where the longest match lies\<close>

text \<open>
  The work list of \<^verbatim>\<open>get_matching_blocks\<close> ends because a block that is found lies within
  the rows it was searched in. \<open>a_ok alo m best\<close>: the block starts at or after \<open>alo\<close> and
  ends at or before \<open>m\<close>; \<open>len_ok j2len d\<close>: no length in \<open>j2len\<close> exceeds \<open>d\<close>.
\<close>

definition a_ok :: "nat \<Rightarrow> nat \<Rightarrow> block \<Rightarrow> bool" where
  "a_ok alo m best = (case best of (besti, bestj, bestsize) \<Rightarrow> alo \<le> besti \<and> besti + bestsize \<le> m)"

definition len_ok :: "(nat \<rightharpoonup> nat) \<Rightarrow> nat \<Rightarrow> bool" where
  "len_ok j2len d = (\<forall>j v. j2len j = Some v \<longrightarrow> v \<le> d)"

lemma row_scan_a:
  "row_scan i blo bhi j2len js (new, best) = (new', best') \<Longrightarrow> alo \<le> i \<Longrightarrow>
   len_ok j2len (i - alo) \<Longrightarrow> len_ok new (Suc i - alo) \<Longrightarrow> a_ok alo (Suc i) best \<Longrightarrow>
   len_ok new' (Suc i - alo) \<and> a_ok alo (Suc i) best'"
proof (induction js arbitrary: new best)
  case Nil
  then show ?case by simp
next
  case (Cons j js)
  obtain bi bj bs where best: "best = (bi, bj, bs)" by (cases best)
  let ?k = "(if j = 0 then 0 else case j2len (j - 1) of None \<Rightarrow> 0 | Some v \<Rightarrow> v) + 1"
  have "(case j2len (j - 1) of None \<Rightarrow> 0 | Some v \<Rightarrow> v) \<le> i - alo"
    using Cons.prems(3) by (auto simp: len_ok_def split: option.splits)
  then have k: "?k \<le> Suc i - alo"
    using Cons.prems(2) by auto
  show ?case
  proof (cases "j < blo")
    case True
    with Cons best show ?thesis by simp
  next
    case False
    show ?thesis
    proof (cases "j \<ge> bhi")
      case True
      with Cons.prems False best show ?thesis by simp
    next
      case nb: False
      have new: "len_ok (new(j \<mapsto> ?k)) (Suc i - alo)"
        using Cons.prems(4) k by (auto simp: len_ok_def)
      show ?thesis
      proof (cases "?k > bs")
        case True
        have "a_ok alo (Suc i) (i + 1 - ?k, j + 1 - ?k, ?k)"
          using k Cons.prems(2) by (simp add: a_ok_def)
        moreover have "row_scan i blo bhi j2len js (new(j \<mapsto> ?k), (i + 1 - ?k, j + 1 - ?k, ?k)) = (new', best')"
          using Cons.prems(1) False nb True best by (simp add: Let_def)
        ultimately show ?thesis
          using Cons.IH Cons.prems(2,3) new by blast
      next
        case nk: False
        have "row_scan i blo bhi j2len js (new(j \<mapsto> ?k), best) = (new', best')"
          using Cons.prems(1) False nb nk best by (simp add: Let_def)
        then show ?thesis
          using Cons.IH Cons.prems(2,3,5) new by blast
      qed
    qed
  qed
qed

lemma len_ok_empty: "len_ok Map.empty d"
  by (simp add: len_ok_def)

lemma a_ok_mono: "a_ok alo m best \<Longrightarrow> m \<le> m' \<Longrightarrow> a_ok alo m' best"
  by (auto simp: a_ok_def)

lemma scan_rows_a:
  "scan_rows a b2j blo bhi [i..<ahi] j2len best = Inr r \<Longrightarrow> alo \<le> i \<Longrightarrow>
   len_ok j2len (i - alo) \<Longrightarrow> a_ok alo i best \<Longrightarrow> a_ok alo (max i ahi) r"
proof (induction "ahi - i" arbitrary: i j2len best)
  case 0
  then show ?case by (simp add: max_def)
next
  case (Suc n)
  then have lt: "i < ahi" by simp
  then have rows: "[i..<ahi] = i # [Suc i..<ahi]" by (simp add: upt_conv_Cons)
  from Suc.prems(1) rows obtain elt where elt: "getitem a i = Inr elt"
    by (auto split: sum.splits)
  obtain new' best' where rs: "row_scan i blo bhi j2len (b2j elt) (Map.empty, best) = (new', best')"
    by (cases "row_scan i blo bhi j2len (b2j elt) (Map.empty, best)")
  have inv: "len_ok new' (Suc i - alo) \<and> a_ok alo (Suc i) best'"
    using row_scan_a [OF rs Suc.prems(2,3) len_ok_empty] Suc.prems(4) a_ok_mono by auto
  have rec: "scan_rows a b2j blo bhi [Suc i..<ahi] new' best' = Inr r"
    using Suc.prems(1) rows elt rs by simp
  have "a_ok alo (max (Suc i) ahi) r"
    using Suc.hyps(1) [of "Suc i" new' best'] Suc.hyps(2) rec Suc.prems(2) inv by auto
  with lt show ?case by (simp add: max_def)
qed

lemma extend_left_a:
  "extend_left ok a b alo blo best = Inr r \<Longrightarrow> a_ok alo m best \<Longrightarrow> a_ok alo m r"
proof (induction ok a b alo blo best rule: extend_left.induct)
  case (1 ok a b alo blo besti bestj bestsize)
  show ?case
  proof (cases "besti > alo \<and> bestj > blo")
    case True
    show ?thesis
    proof (cases "getitem b (bestj - 1)")
      case (Inl e)
      with True "1.prems" show ?thesis by (simp add: extend_left.simps)
    next
      case y: (Inr y)
      show ?thesis
      proof (cases "ok y")
        case oky: True
        show ?thesis
        proof (cases "getitem a (besti - 1)")
          case (Inl e)
          with True y oky "1.prems" show ?thesis by (simp add: extend_left.simps)
        next
          case x: (Inr x)
          show ?thesis
          proof (cases "x = y")
            case eq: True
            have "extend_left ok a b alo blo (besti - 1, bestj - 1, bestsize + 1) = Inr r"
              using "1.prems"(1) True y oky x eq by (simp add: extend_left.simps)
            moreover have "a_ok alo m (besti - 1, bestj - 1, bestsize + 1)"
              using "1.prems"(2) True by (auto simp: a_ok_def)
            ultimately show ?thesis
              using "1.IH" True y oky x eq by blast
          next
            case False
            with True y oky x "1.prems" show ?thesis by (simp add: extend_left.simps)
          qed
        qed
      next
        case False
        with True y "1.prems" show ?thesis by (simp add: extend_left.simps)
      qed
    qed
  next
    case False
    with "1.prems" show ?thesis by (auto simp: extend_left.simps)
  qed
qed


lemma extend_right_a:
  "extend_right ok a b ahi bhi best = Inr r \<Longrightarrow> ahi \<le> m \<Longrightarrow> a_ok alo m best \<Longrightarrow> a_ok alo m r"
proof (induction ok a b ahi bhi best rule: extend_right.induct)
  case (1 ok a b ahi bhi besti bestj bestsize)
  show ?case
  proof (cases "besti + bestsize < ahi \<and> bestj + bestsize < bhi")
    case True
    show ?thesis
    proof (cases "getitem b (bestj + bestsize)")
      case (Inl e)
      with True "1.prems" show ?thesis by (simp add: extend_right.simps)
    next
      case y: (Inr y)
      show ?thesis
      proof (cases "ok y")
        case oky: True
        show ?thesis
        proof (cases "getitem a (besti + bestsize)")
          case (Inl e)
          with True y oky "1.prems" show ?thesis by (simp add: extend_right.simps)
        next
          case x: (Inr x)
          show ?thesis
          proof (cases "x = y")
            case eq: True
            have "extend_right ok a b ahi bhi (besti, bestj, bestsize + 1) = Inr r"
              using "1.prems"(1) True y oky x eq by (simp add: extend_right.simps)
            moreover have "a_ok alo m (besti, bestj, bestsize + 1)"
              using "1.prems"(2,3) True by (auto simp: a_ok_def)
            ultimately show ?thesis
              using "1.IH" True y oky x eq "1.prems"(2) by blast
          next
            case False
            with True y oky x "1.prems" show ?thesis by (simp add: extend_right.simps)
          qed
        qed
      next
        case False
        with True y "1.prems" show ?thesis by (simp add: extend_right.simps)
      qed
    qed
  next
    case False
    with "1.prems" show ?thesis by (auto simp: extend_right.simps)
  qed
qed

lemma bind_Inr: "bind m f = Inr r \<Longrightarrow> \<exists>v. m = Inr v \<and> f v = Inr r"
  by (cases m) (auto simp: bind_def)

lemma find_longest_match_a:
  assumes "find_longest_match a b alo ahi blo bhi = Inr (i, j, k)"
  shows "alo \<le> i \<and> i + k \<le> max alo ahi"
proof -
  let ?m = "max alo ahi"
  from assms obtain b1 b2 b3 b4 where
    s1: "scan_rows a (chain_b b) blo bhi [alo..<ahi] Map.empty (alo, blo, 0) = Inr b1" and
    s2: "extend_left (\<lambda>c. \<not> isbjunk c) a b alo blo b1 = Inr b2" and
    s3: "extend_right (\<lambda>c. \<not> isbjunk c) a b ahi bhi b2 = Inr b3" and
    s4: "extend_left isbjunk a b alo blo b3 = Inr b4" and
    s5: "extend_right isbjunk a b ahi bhi b4 = Inr (i, j, k)"
    unfolding find_longest_match_def by (blast dest: bind_Inr)
  have "a_ok alo ?m b1"
    using scan_rows_a [OF s1, of alo] by (simp add: len_ok_empty a_ok_def)
  then have "a_ok alo ?m b2" using extend_left_a [OF s2] by blast
  then have "a_ok alo ?m b3" using extend_right_a [OF s3, of ?m alo] by simp
  then have "a_ok alo ?m b4" using extend_left_a [OF s4] by blast
  then have "a_ok alo ?m (i, j, k)" using extend_right_a [OF s5, of ?m alo] by simp
  then show ?thesis by (simp add: a_ok_def)
qed

lemma find_longest_match_bounds:
  "find_longest_match a b alo ahi blo bhi = Inr (i, j, k) \<Longrightarrow> k \<noteq> 0 \<Longrightarrow>
   alo \<le> i \<and> i + k \<le> ahi"
  using find_longest_match_a [of a b alo ahi blo bhi i j k] by (auto simp: max_def split: if_splits)

subsection \<open>\<^verbatim>\<open>get_matching_blocks\<close> and \<^verbatim>\<open>ratio\<close>\<close>

text \<open>
  The loop \<^verbatim>\<open>while queue\<close>. The Python list \<^verbatim>\<open>queue\<close> is used as a stack (\<^verbatim>\<open>append\<close> and
  \<^verbatim>\<open>pop\<close>); its last element is the head of the list here.
\<close>

function match_queue ::
  "string \<Rightarrow> string \<Rightarrow> (nat \<times> nat \<times> nat \<times> nat) list \<Rightarrow> block list \<Rightarrow> error + block list" where
  "match_queue a b [] matching_blocks = Inr matching_blocks"
| "match_queue a b ((alo, ahi, blo, bhi) # queue) matching_blocks =
     (case find_longest_match a b alo ahi blo bhi of
        Inl e \<Rightarrow> Inl e
      | Inr (i, j, k) \<Rightarrow>
          if k \<noteq> 0 then
            match_queue a b
              ((if i + k < ahi \<and> j + k < bhi then [(i + k, ahi, j + k, bhi)] else [])
                 @ (if alo < i \<and> blo < j then [(alo, i, blo, j)] else []) @ queue)
              (matching_blocks @ [(i, j, k)])
          else match_queue a b queue matching_blocks)"
  by pat_completeness auto
termination
proof (relation "measure (\<lambda>(a, b, queue, blocks).
         sum_list (map (\<lambda>(alo, ahi, blo, bhi). 2 * (ahi - alo) + 1) queue))", goal_cases)
  case 1
  show ?case by simp
next
  case (2 a b alo ahi blo bhi queue matching_blocks x2 i y j k)
  then have "alo \<le> i \<and> i + k \<le> ahi"
    using find_longest_match_bounds [of a b alo ahi blo bhi i j k] by simp
  with 2 show ?case by auto
next
  case 3
  then show ?case by simp
qed

text \<open>
  The second half of \<^verbatim>\<open>get_matching_blocks\<close>: the blocks are sorted, adjacent blocks are
  merged into one (the current block is \<open>(i1, j1, k1)\<close>), and a final block of size 0 is
  appended.
\<close>

fun collapse :: "block \<Rightarrow> block list \<Rightarrow> block list" where
  "collapse (i1, j1, k1) [] = (if k1 \<noteq> 0 then [(i1, j1, k1)] else [])"
| "collapse (i1, j1, k1) ((i2, j2, k2) # rest) =
     (if i1 + k1 = i2 \<and> j1 + k1 = j2 then collapse (i1, j1, k1 + k2) rest
      else (if k1 \<noteq> 0 then [(i1, j1, k1)] else []) @ collapse (i2, j2, k2) rest)"

definition get_matching_blocks :: "string \<Rightarrow> string \<Rightarrow> error + block list" where
  "get_matching_blocks a b =
     bind (match_queue a b [(0, length a, 0, length b)] []) (\<lambda>matching_blocks.
     Inr (collapse (0, 0, 0) (sort matching_blocks) @ [(length a, length b, 0)]))"

text \<open>\<^verbatim>\<open>_calculate_ratio(matches, length)\<close>.\<close>

definition calculate_ratio :: "nat \<Rightarrow> nat \<Rightarrow> rat" where
  "calculate_ratio matches len = (if len \<noteq> 0 then 2 * of_nat matches / of_nat len else 1)"

definition ratio :: "string \<Rightarrow> string \<Rightarrow> error + rat" where
  "ratio a b =
     bind (get_matching_blocks a b) (\<lambda>blocks.
     Inr (calculate_ratio (sum_list (map (\<lambda>(i, j, k). k) blocks)) (length a + length b)))"

definition calculate_similarity :: "string \<Rightarrow> string \<Rightarrow> error + rat" where
  "calculate_similarity text1 text2 = ratio (strip text1) (strip text2)"

section \<open>The parser\<close>

text \<open>
  \<^verbatim>\<open>BeautifulSoup(code, 'html.parser')\<close> feeds the text to the tokenizer of Python's
  \<^verbatim>\<open>html.parser\<close> (\<^verbatim>\<open>feed\<close>, then \<^verbatim>\<open>close\<close>) and adds one element to the tree for every
  start tag the tokenizer reports. This section models that tokenizer (CPython 3.11,
  with \<^verbatim>\<open>convert_charrefs=False\<close>, as the tree builder sets it) as far as the elements
  and the exceptions go: text, comments, declarations and end tags create no element.
  The regular expressions of the library are written as scanners that consume what the
  expression consumes, its backtracking included.
\<close>

subsection \<open>Character classes\<close>

definition is_alpha :: "char \<Rightarrow> bool" where
  "is_alpha c = ((65 \<le> (of_char c :: nat) \<and> (of_char c :: nat) \<le> 90)
                 \<or> (97 \<le> (of_char c :: nat) \<and> (of_char c :: nat) \<le> 122))"

definition is_digit :: "char \<Rightarrow> bool" where
  "is_digit c = (48 \<le> (of_char c :: nat) \<and> (of_char c :: nat) \<le> 57)"

definition is_hex :: "char \<Rightarrow> bool" where
  "is_hex c = (is_digit c \<or> (65 \<le> (of_char c :: nat) \<and> (of_char c :: nat) \<le> 70)
                \<or> (97 \<le> (of_char c :: nat) \<and> (of_char c :: nat) \<le> 102))"

definition is_alnum :: "char \<Rightarrow> bool" where
  "is_alnum c = (is_alpha c \<or> is_digit c)"

text \<open>\<^verbatim>\<open>str.lower\<close> on one character with a code point below 256.\<close>

definition lower_char :: "char \<Rightarrow> char" where
  "lower_char c =
     (if (65 \<le> (of_char c :: nat) \<and> (of_char c :: nat) \<le> 90)
         \<or> (192 \<le> (of_char c :: nat) \<and> (of_char c :: nat) \<le> 222 \<and> (of_char c :: nat) \<noteq> 215)
      then char_of ((of_char c :: nat) + 32) else c)"

definition lower :: "string \<Rightarrow> string" where
  "lower s = map lower_char s"

text \<open>\<^verbatim>\<open>[^\t\n\r\f />\x00]\<close>, a character of a tag name.\<close>

definition tagname_char :: "char \<Rightarrow> bool" where
  "tagname_char c = ((of_char c :: nat) \<notin> {9, 10, 13, 12, 32, 47, 62, 0})"

text \<open>\<^verbatim>\<open>[^\s/>]\<close>, \<^verbatim>\<open>[^\s/=>]\<close>, \<^verbatim>\<open>[^>\s]\<close> and the look-behind \<^verbatim>\<open>(?<=['"\s/])\<close>.\<close>

definition attr_first :: "char \<Rightarrow> bool" where
  "attr_first c = (\<not> py_isspace c \<and> c \<noteq> CHR ''/'' \<and> c \<noteq> CHR ''>'')"

definition attr_name_char :: "char \<Rightarrow> bool" where
  "attr_name_char c = (\<not> py_isspace c \<and> c \<noteq> CHR ''/'' \<and> c \<noteq> CHR ''='' \<and> c \<noteq> CHR ''>'')"

definition bare_char :: "char \<Rightarrow> bool" where
  "bare_char c = (c \<noteq> CHR ''>'' \<and> \<not> py_isspace c)"

definition lookbehind_ok :: "char \<Rightarrow> bool" where
  "lookbehind_ok p = (p = CHR 0x27 \<or> p = CHR 0x22 \<or> py_isspace p \<or> p = CHR ''/'')"

subsection \<open>Scanning with the character before\<close>

text \<open>
  A cursor is a position in the text: the character before it and the text from it on.
\<close>

type_synonym cursor = "char \<times> string"

definition advance :: "nat \<Rightarrow> cursor \<Rightarrow> cursor" where
  "advance n cur =
     (case cur of (p, t) \<Rightarrow> if n = 0 \<or> t = [] then (p, t) else (last (take n t), drop n t))"

text \<open>
  \<^verbatim>\<open>(?:\s|/(?!>))*\<close>: whitespace, and every slash that is not followed by a
  greater-than sign.
\<close>

fun skip_ws_slash :: "cursor \<Rightarrow> cursor" where
  "skip_ws_slash (p, []) = (p, [])"
| "skip_ws_slash (p, c # cs) =
     (if py_isspace c \<or> (c = CHR ''/'' \<and> \<not> startswith cs ''>'')
      then skip_ws_slash (c, cs) else (p, c # cs))"

text \<open>\<^verbatim>\<open>[\s/]*\<close> and \<^verbatim>\<open>\s*\<close>.\<close>

fun skip :: "(char \<Rightarrow> bool) \<Rightarrow> cursor \<Rightarrow> cursor" where
  "skip P (p, []) = (p, [])"
| "skip P (p, c # cs) = (if P c then skip P (c, cs) else (p, c # cs))"

subsection \<open>Attributes\<close>

text \<open>
  The value part of an attribute,
  \<^verbatim>\<open>\s*=+\s*('[^']*'|"[^"]*"|(?!['"])[^>\s]*)\<close>, tried on the text behind the
  attribute's name: the value (without its quotes) and the number of characters matched.
  A quote that is never closed makes the expression backtrack: it gives back one
  whitespace character and takes an empty bare value, or else gives back one equals sign
  and takes a bare value that starts with it, or else does not match.
\<close>

definition value_group :: "string \<Rightarrow> (string \<times> nat) option" where
  "value_group t =
     (let ws1 = length (takeWhile py_isspace t); t1 = drop ws1 t;
          m = length (takeWhile (\<lambda>c. c = CHR ''='') t1); t2 = drop m t1;
          w = length (takeWhile py_isspace t2); t3 = drop w t2
      in if m = 0 then None
         else
           (case t3 of
              [] \<Rightarrow> Some ([], ws1 + m + w)
            | q # r \<Rightarrow>
                if q = CHR 0x27 \<or> q = CHR 0x22 then
                  (if q \<in> set r
                   then Some (takeWhile (\<lambda>c. c \<noteq> q) r,
                              ws1 + m + w + length (takeWhile (\<lambda>c. c \<noteq> q) r) + 2)
                   else if w \<ge> 1 then Some ([], ws1 + m + w - 1)
                   else if m \<ge> 2
                   then Some (CHR ''='' # takeWhile bare_char t3,
                              ws1 + m + length (takeWhile bare_char t3))
                   else None)
                else Some (takeWhile bare_char t3, ws1 + m + w + length (takeWhile bare_char t3))))"

text \<open>
  \<^verbatim>\<open>unescape(attrvalue)\<close> returns a value without an ampersand as it is; what it does to
  the character references of any other value is the parameter \<open>charref_sub\<close>.
\<close>

definition unescape :: "(string \<Rightarrow> string) \<Rightarrow> string \<Rightarrow> string" where
  "unescape charref_sub s = (if CHR ''&'' \<in> set s then charref_sub s else s)"

text \<open>
  \<^verbatim>\<open>attrfind_tolerant.match\<close> at a cursor: the attribute's name, its value if it has one,
  and the cursor behind the match. The attribute part of \<^verbatim>\<open>locatestarttagend_tolerant\<close>
  consumes the same text.
\<close>

definition attrfind :: "cursor \<Rightarrow> ((string \<times> string option) \<times> cursor) option" where
  "attrfind cur =
     (case cur of
        (p, []) \<Rightarrow> None
      | (p, c # cs) \<Rightarrow>
          if lookbehind_ok p \<and> attr_first c then
            (let attrname = c # takeWhile attr_name_char cs;
                 cur1 = advance (length attrname) (p, c # cs)
             in case value_group (snd cur1) of
                  None \<Rightarrow> Some ((attrname, None), skip_ws_slash cur1)
                | Some (v, n) \<Rightarrow> Some ((attrname, Some v), skip_ws_slash (advance n cur1)))
          else None)"

lemma skip_ws_slash_length: "length (snd (skip_ws_slash cur)) \<le> length (snd cur)"
  by (induction cur rule: skip_ws_slash.induct) (auto intro: le_SucI)

lemma skip_length: "length (snd (skip P cur)) \<le> length (snd cur)"
  by (induction P cur rule: skip.induct) (auto intro: le_SucI)

lemma advance_length: "length (snd (advance n cur)) \<le> length (snd cur)"
  by (cases cur) (simp add: advance_def)

lemma attrfind_length:
  "attrfind cur = Some (x, cur') \<Longrightarrow> length (snd cur') < length (snd cur)"
proof -
  assume a: "attrfind cur = Some (x, cur')"
  obtain p t where cur: "cur = (p, t)" by (cases cur)
  with a obtain c cs where t: "t = c # cs" by (cases t) (auto simp: attrfind_def)
  let ?n = "length (c # takeWhile attr_name_char cs)"
  let ?cur1 = "advance ?n (p, c # cs)"
  have "length (takeWhile attr_name_char cs) \<le> length cs" by (rule length_takeWhile_le)
  then have l1: "length (snd ?cur1) < length (c # cs)" by (simp add: advance_def)
  have "length (snd cur') \<le> length (snd ?cur1)"
    using a cur t skip_ws_slash_length [of ?cur1]
      skip_ws_slash_length [of "advance n ?cur1" for n] advance_length [of _ ?cur1]
    by (auto simp: attrfind_def Let_def split: if_splits option.splits intro: order_trans)
  with l1 cur t show ?thesis by simp
qed

text \<open>The attributes of \<^verbatim>\<open>locatestarttagend_tolerant\<close>, one after the other.\<close>

function locate_attrs :: "cursor \<Rightarrow> cursor" where
  "locate_attrs cur =
     (case attrfind cur of None \<Rightarrow> cur | Some (x, cur') \<Rightarrow> locate_attrs cur')"
  by pat_completeness auto
termination
  by (relation "measure (\<lambda>cur. length (snd cur))") (auto dest: attrfind_length)

declare locate_attrs.simps [simp del]

text \<open>
  \<^verbatim>\<open>locatestarttagend_tolerant.match\<close> on a text that starts with \<^verbatim>\<open><\<close> and a letter:
  the text behind the match.
\<close>

definition locatestarttagend :: "string \<Rightarrow> string" where
  "locatestarttagend s =
     (let t = tl s;
          cur = advance (length (takeWhile tagname_char t)) (CHR ''<'', t);
          cur = skip (\<lambda>c. py_isspace c \<or> c = CHR ''/'') cur;
          cur = locate_attrs cur;
          cur = skip py_isspace cur
      in snd cur)"

text \<open>
  \<^verbatim>\<open>check_for_whole_start_tag\<close>: the text behind the start tag, \<open>None\<close> for -1.
\<close>

definition check_for_whole_start_tag :: "string \<Rightarrow> string option" where
  "check_for_whole_start_tag s =
     (case locatestarttagend s of
        [] \<Rightarrow> None
      | c # cs \<Rightarrow>
          if c = CHR ''>'' then Some cs
          else if c = CHR ''/'' then (if startswith cs ''>'' then Some (tl cs) else None)
          else if is_alpha c \<or> c = CHR ''='' then None
          else Some (c # cs))"

text \<open>
  The loop \<^verbatim>\<open>while k < endpos\<close> of \<^verbatim>\<open>parse_starttag\<close>; \<open>endlen\<close> is the length of the text
  behind \<^verbatim>\<open>endpos\<close>.
\<close>

function attr_loop ::
  "(string \<Rightarrow> string) \<Rightarrow> nat \<Rightarrow> cursor \<Rightarrow> (string \<times> string option) list
     \<Rightarrow> (string \<times> string option) list \<times> cursor" where
  "attr_loop charref_sub endlen cur attrs =
     (if length (snd cur) > endlen then
        (case attrfind cur of
           None \<Rightarrow> (attrs, cur)
         | Some ((attrname, attrvalue), cur') \<Rightarrow>
             attr_loop charref_sub endlen cur'
               (attrs @ [(lower attrname,
                          case attrvalue of
                            None \<Rightarrow> None
                          | Some v \<Rightarrow> Some (if v \<noteq> [] then unescape charref_sub v else v))]))
      else (attrs, cur))"
  by pat_completeness auto
termination
  by (relation "measure (\<lambda>(u, endlen, cur, attrs). length (snd cur))")
     (auto dest: attrfind_length)

declare attr_loop.simps [simp del]

subsection \<open>Start tags and the other constructs\<close>

text \<open>
  \<^verbatim>\<open>parse_starttag\<close> on a text that starts with \<^verbatim>\<open><\<close> and a letter. \<open>None\<close> is the result
  -1 (the tag is not complete). Otherwise: the start tag reported, if any (text that
  does not end as a tag is passed on as data), the text behind \<^verbatim>\<open>endpos\<close>, and whether the
  tokenizer now reads the content of a \<^verbatim>\<open>script\<close> or \<^verbatim>\<open>style\<close> element.
\<close>

definition parse_starttag ::
  "(string \<Rightarrow> string) \<Rightarrow> string
     \<Rightarrow> ((string \<times> (string \<times> string option) list) option \<times> string \<times> string option) option" where
  "parse_starttag charref_sub s =
     (case check_for_whole_start_tag s of
        None \<Rightarrow> None
      | Some rest \<Rightarrow>
          (let t = tl s;
               tagname = takeWhile tagname_char t;
               tag = lower tagname;
               cur = skip_ws_slash (advance (length tagname) (CHR ''<'', t));
               (attrs, cur) = attr_loop charref_sub (length rest) cur [];
               end = strip (take (length (snd cur) - length rest) (snd cur))
           in if end \<noteq> ''>'' \<and> end \<noteq> ''/>'' then Some (None, rest, None)
              else if end = ''/>'' then Some (Some (tag, attrs), rest, None)
              else Some (Some (tag, attrs), rest,
                         if tag = ''script'' \<or> tag = ''style'' then Some tag else None)))"

text \<open>
  \<^verbatim>\<open>parse_endtag\<close> on a text that starts with \<^verbatim>\<open></\<close>: every branch returns the position
  behind the first greater-than sign, or -1 when there is none.
\<close>

definition parse_endtag :: "string \<Rightarrow> string option" where
  "parse_endtag s = after_first ''>'' (tl s)"

text \<open>
  \<^verbatim>\<open>parse_comment\<close>: the comment ends with the first match of \<^verbatim>\<open>--\s*\<close> and a
  greater-than sign, searched from behind \<^verbatim>\<open><!--\<close>.
\<close>

fun comment_close :: "string \<Rightarrow> string option" where
  "comment_close [] = None"
| "comment_close (c # cs) =
     (if c = CHR ''-'' \<and> startswith cs ''-'' \<and> startswith (dropWhile py_isspace (tl cs)) ''>''
      then Some (tl (dropWhile py_isspace (tl cs)))
      else comment_close cs)"

definition parse_comment :: "string \<Rightarrow> string option" where
  "parse_comment s = comment_close (drop 4 s)"

text \<open>\<^verbatim>\<open>parse_pi\<close> and \<^verbatim>\<open>parse_bogus_comment\<close>.\<close>

definition parse_pi :: "string \<Rightarrow> string option" where
  "parse_pi s = after_first ''>'' (drop 2 s)"

definition parse_bogus_comment :: "string \<Rightarrow> string option" where
  "parse_bogus_comment s = after_first ''>'' (drop 2 s)"

text \<open>
  \<^verbatim>\<open>parse_marked_section\<close> on a text that starts with \<^verbatim>\<open><![\<close>. The name is scanned by
  \<^verbatim>\<open>_scan_name\<close>; the end of the section is searched from behind \<^verbatim>\<open><![\<close>: \<^verbatim>\<open>]\s*]\s*\<close> or
  \<^verbatim>\<open>]\s*\<close>, each followed by a greater-than sign. A text that does not start with a name,
  or a name that is no section keyword, raises \<^verbatim>\<open>AssertionError\<close>, which the tree builder
  turns into \<^verbatim>\<open>ParserRejectedMarkup\<close>.
\<close>

definition declname_char :: "char \<Rightarrow> bool" where
  "declname_char c = (is_alnum c \<or> c = CHR ''-'' \<or> c = CHR ''_'' \<or> c = CHR ''.'')"

fun section_close :: "bool \<Rightarrow> string \<Rightarrow> string option" where
  "section_close two [] = None"
| "section_close two (c # cs) =
     (if c = CHR '']'' \<and>
         (if two
          then startswith (dropWhile py_isspace cs) '']'' \<and>
               startswith (dropWhile py_isspace (tl (dropWhile py_isspace cs))) ''>''
          else startswith (dropWhile py_isspace cs) ''>'')
      then Some (if two then tl (dropWhile py_isspace (tl (dropWhile py_isspace cs)))
                 else tl (dropWhile py_isspace cs))
      else section_close two cs)"

definition parse_marked_section :: "string \<Rightarrow> error + string option" where
  "parse_marked_section s =
     (let t = drop 3 s in
      case t of
        [] \<Rightarrow> Inr None
      | c # cs \<Rightarrow>
          if is_alpha c then
            (let name = c # takeWhile declname_char cs;
                 after = dropWhile py_isspace (dropWhile declname_char cs);
                 sectName = lower name
             in if after = [] then Inr None
                else if sectName \<in> {''temp'', ''cdata'', ''ignore'', ''include'', ''rcdata''}
                then Inr (section_close True t)
                else if sectName \<in> {''if'', ''else'', ''endif''}
                then Inr (section_close False t)
                else Inl ParserRejectedMarkup)
          else Inl ParserRejectedMarkup)"

text \<open>\<^verbatim>\<open>parse_html_declaration\<close> on a text that starts with \<^verbatim>\<open><!\<close> but not with \<^verbatim>\<open><!--\<close>.\<close>

definition parse_html_declaration :: "string \<Rightarrow> error + string option" where
  "parse_html_declaration s =
     (if startswith s ''<!['' then parse_marked_section s
      else if lower (take 9 s) = ''<!doctype'' then Inr (after_first ''>'' (drop 9 s))
      else Inr (parse_bogus_comment s))"

text \<open>
  In the content of a \<^verbatim>\<open>script\<close> or \<^verbatim>\<open>style\<close> element the tokenizer looks for
  \<^verbatim>\<open></\s*elem\s*\<close> and a greater-than sign only, ignoring case: the text behind the
  first match.
\<close>

definition close_tag_here :: "string \<Rightarrow> string \<Rightarrow> string option" where
  "close_tag_here elem s =
     (if startswith s ''</'' then
        (let t = dropWhile py_isspace (drop 2 s) in
         if lower (take (length elem) t) = elem
            \<and> startswith (dropWhile py_isspace (drop (length elem) t)) ''>''
         then Some (tl (dropWhile py_isspace (drop (length elem) t)))
         else None)
      else None)"

fun cdata_close :: "string \<Rightarrow> string \<Rightarrow> string option" where
  "cdata_close elem [] = None"
| "cdata_close elem (c # cs) =
     (case close_tag_here elem (c # cs) of
        Some rest \<Rightarrow> Some rest
      | None \<Rightarrow> cdata_close elem cs)"

subsection \<open>\<^verbatim>\<open>goahead\<close>\<close>

text \<open>
  One round of the loop \<^verbatim>\<open>while i < n\<close> either goes on behind a construct (with the start
  tag it reported, if any, and the element whose content is read from then on, if any) or
  leaves the loop with the text that is left.
\<close>

datatype step =
  Continue "(string \<times> (string \<times> string option) list) option" "string option" string
  | Break string

text \<open>
  A construct that is not complete (the result -1): \<^verbatim>\<open>feed\<close> waits for more text,
  \<^verbatim>\<open>close\<close> passes the text up to the next greater-than or less-than sign on as data.
\<close>

definition incomplete :: "bool \<Rightarrow> string \<Rightarrow> step" where
  "incomplete end t =
     (if \<not> end then Break t
      else
        (case after_first ''>'' (tl t) of
           Some rest \<Rightarrow> Continue None None rest
         | None \<Rightarrow>
             (let d = dropWhile (\<lambda>c. c \<noteq> CHR ''<'') (tl t)
              in Continue None None (if d = [] then tl t else d))))"

text \<open>
  A numeric character reference, \<^verbatim>\<open>&#(?:[0-9]+|[xX][0-9a-fA-F]+)[^0-9a-fA-F]\<close>, at a text
  that starts with \<^verbatim>\<open>&#\<close>. The tree builder converts a decimal reference with
  \<^verbatim>\<open>int(name)\<close>, which raises \<^verbatim>\<open>ValueError\<close> on more than 4300 digits.
\<close>

definition charref_step :: "string \<Rightarrow> error + step" where
  "charref_step t =
     (let u = drop 2 t;
          nomatch = Break (if CHR '';'' \<in> set t then u else t)
      in if takeWhile is_digit u \<noteq> [] then
           (let r = dropWhile is_digit u in
            if r \<noteq> [] \<and> \<not> is_hex (hd r) then
              (if length (takeWhile is_digit u) > 4300 then Inl ValueError
               else Inr (Continue None None (if hd r = CHR '';'' then tl r else r)))
            else Inr nomatch)
         else if startswith u ''x'' \<or> startswith u ''X'' then
           (let r = dropWhile is_hex (tl u) in
            if takeWhile is_hex (tl u) \<noteq> [] \<and> r \<noteq> []
            then Inr (Continue None None (if hd r = CHR '';'' then tl r else r))
            else Inr nomatch)
         else Inr nomatch)"

text \<open>
  A named reference, \<^verbatim>\<open>&([a-zA-Z][-.a-zA-Z0-9]*)[^a-zA-Z0-9]\<close>, at a text that starts
  with an ampersand but not with \<^verbatim>\<open>&#\<close>. A name that runs to the end of the text makes
  the expression backtrack to the last hyphen or full stop of the name.
\<close>

definition ent_char :: "char \<Rightarrow> bool" where
  "ent_char c = (is_alnum c \<or> c = CHR ''-'' \<or> c = CHR ''.'')"

definition entityref_step :: "bool \<Rightarrow> string \<Rightarrow> step" where
  "entityref_step end t =
     (case tl t of
        [] \<Rightarrow> Break t
      | a # r \<Rightarrow>
          if is_alpha a then
            (let run = takeWhile ent_char r; after = dropWhile ent_char r;
                 k = length (takeWhile is_alnum (rev run))
             in if after \<noteq> []
                then Continue None None (if hd after = CHR '';'' then tl after else after)
                else if k < length run then Continue None None (drop (length run - k - 1) run)
                else Break (if end \<and> length t = 2 then tl t else t))
          else Continue None None (tl t))"

text \<open>
  The construct at a less-than sign that is not the last character of the text, in the
  order in which \<^verbatim>\<open>goahead\<close> tries them.
\<close>

definition construct_step :: "(string \<Rightarrow> string) \<Rightarrow> bool \<Rightarrow> string \<Rightarrow> error + step" where
  "construct_step charref_sub end t =
     (if is_alpha (hd (tl t)) then
        (case parse_starttag charref_sub t of
           None \<Rightarrow> Inr (incomplete end t)
         | Some (tag, rest, cdata_elem) \<Rightarrow> Inr (Continue tag cdata_elem rest))
      else if startswith t ''</'' then
        (case parse_endtag t of
           None \<Rightarrow> Inr (incomplete end t)
         | Some rest \<Rightarrow> Inr (Continue None None rest))
      else if startswith t ''<!--'' then
        (case parse_comment t of
           None \<Rightarrow> Inr (incomplete end t)
         | Some rest \<Rightarrow> Inr (Continue None None rest))
      else if startswith t ''<?'' then
        (case parse_pi t of
           None \<Rightarrow> Inr (incomplete end t)
         | Some rest \<Rightarrow> Inr (Continue None None rest))
      else if startswith t ''<!'' then
        (case parse_html_declaration t of
           Inl e \<Rightarrow> Inl e
         | Inr None \<Rightarrow> Inr (incomplete end t)
         | Inr (Some rest) \<Rightarrow> Inr (Continue None None rest))
      else Inr (Continue None None (tl t)))"

text \<open>
  The round in normal mode, on a text that is not empty: the text up to the next
  ampersand or less-than sign is data.
\<close>

definition markup_step :: "(string \<Rightarrow> string) \<Rightarrow> bool \<Rightarrow> string \<Rightarrow> error + step" where
  "markup_step charref_sub end s =
     (let t = dropWhile (\<lambda>c. c \<noteq> CHR ''&'' \<and> c \<noteq> CHR ''<'') s in
      if t = [] then Inr (Break [])
      else if startswith t ''<'' then
        (if tl t = [] then Inr (Break t) else construct_step charref_sub end t)
      else if startswith t ''&#'' then charref_step t
      else Inr (entityref_step end t))"

text \<open>The round, in either mode.\<close>

definition parser_step ::
  "(string \<Rightarrow> string) \<Rightarrow> bool \<Rightarrow> string option \<Rightarrow> string \<Rightarrow> error + step" where
  "parser_step charref_sub end cdata_elem s =
     (case cdata_elem of
        None \<Rightarrow> markup_step charref_sub end s
      | Some elem \<Rightarrow>
          (case cdata_close elem s of
             None \<Rightarrow> Inr (Break s)
           | Some rest \<Rightarrow> Inr (Continue None None rest)))"

subsection \<open>Every round consumes text\<close>

lemma locate_attrs_length: "length (snd (locate_attrs cur)) \<le> length (snd cur)"
proof (induction cur rule: locate_attrs.induct)
  case (1 cur)
  show ?case
  proof (cases "attrfind cur")
    case None
    then show ?thesis by (simp add: locate_attrs.simps)
  next
    case (Some a)
    obtain x cur' where a: "a = (x, cur')" by (cases a)
    have "length (snd (locate_attrs cur')) \<le> length (snd cur')"
      using "1.IH" Some a by simp
    moreover have "length (snd cur') < length (snd cur)"
      using attrfind_length Some a by simp
    ultimately show ?thesis
      using Some a by (simp add: locate_attrs.simps)
  qed
qed

lemma locatestarttagend_length: "length (locatestarttagend s) \<le> length (tl s)"
proof -
  let ?c0 = "advance (length (takeWhile tagname_char (tl s))) (CHR ''<'', tl s)"
  let ?c1 = "skip (\<lambda>c. py_isspace c \<or> c = CHR ''/'') ?c0"
  let ?c2 = "locate_attrs ?c1"
  let ?c3 = "skip py_isspace ?c2"
  have "length (snd ?c3) \<le> length (snd ?c2)" by (rule skip_length)
  also have "\<dots> \<le> length (snd ?c1)" by (rule locate_attrs_length)
  also have "\<dots> \<le> length (snd ?c0)" by (rule skip_length)
  also have "\<dots> \<le> length (snd (CHR ''<'', tl s))" by (rule advance_length)
  finally show ?thesis by (simp add: locatestarttagend_def Let_def)
qed

lemma check_for_whole_start_tag_length:
  assumes "check_for_whole_start_tag s = Some rest"
  shows "length rest \<le> length (tl s)"
proof (cases "locatestarttagend s")
  case Nil
  with assms show ?thesis by (simp add: check_for_whole_start_tag_def)
next
  case (Cons c cs)
  have "rest = cs \<or> rest = tl cs \<or> rest = c # cs"
    using assms Cons by (auto simp: check_for_whole_start_tag_def split: if_splits)
  then have "length rest \<le> length (c # cs)" by auto
  with locatestarttagend_length [of s] Cons show ?thesis by simp
qed

lemma parse_starttag_length:
  "parse_starttag u s = Some (tag, rest, cd) \<Longrightarrow> length rest \<le> length (tl s)"
  by (auto simp: parse_starttag_def Let_def split: option.splits prod.splits if_splits
           dest: check_for_whole_start_tag_length)

lemma comment_close_length: "comment_close s = Some rest \<Longrightarrow> length rest \<le> length s"
proof (induction s)
  case Nil
  then show ?case by simp
next
  case (Cons c cs)
  have "length (tl (dropWhile py_isspace (tl cs))) \<le> length cs"
    by (metis diff_le_self le_trans length_dropWhile_le length_tl)
  with Cons show ?case by (auto split: if_splits intro: le_SucI)
qed

lemma section_close_length: "section_close two s = Some rest \<Longrightarrow> length rest \<le> length s"
proof (induction s)
  case Nil
  then show ?case by simp
next
  case (Cons c cs)
  have a: "length (tl (dropWhile py_isspace cs)) \<le> length cs"
    by (metis diff_le_self le_trans length_dropWhile_le length_tl)
  have "length (tl (dropWhile py_isspace (tl (dropWhile py_isspace cs))))
          \<le> length (tl (dropWhile py_isspace cs))"
    by (metis diff_le_self le_trans length_dropWhile_le length_tl)
  with a have b: "length (tl (dropWhile py_isspace (tl (dropWhile py_isspace cs)))) \<le> length cs"
    by simp
  from Cons a b show ?case by (auto split: if_splits intro: le_SucI)
qed

lemma parse_marked_section_length:
  assumes "parse_marked_section s = Inr (Some rest)"
  shows "length rest \<le> length (drop 3 s)"
proof -
  from assms have "\<exists>two. section_close two (drop 3 s) = Some rest"
    unfolding parse_marked_section_def Let_def
    by (cases "drop 3 s") (auto split: if_splits simp del: section_close.simps)
  then obtain two where "section_close two (drop 3 s) = Some rest" ..
  then show ?thesis by (rule section_close_length)
qed

lemma parse_html_declaration_length:
  assumes "parse_html_declaration s = Inr (Some rest)"
  shows "length rest \<le> length (tl s)"
proof -
  have "length rest \<le> length (drop 3 s) \<or> length rest \<le> length (drop 9 s)
        \<or> length rest \<le> length (drop 2 s)"
    using assms
    by (auto simp: parse_html_declaration_def parse_bogus_comment_def split: if_splits
             dest: parse_marked_section_length after_first_length)
  then show ?thesis by auto
qed


lemma incomplete_length:
  assumes "incomplete end t = Continue ev cd rest" and "t \<noteq> []"
  shows "length rest < length t"
proof -
  have e: "end" using assms(1) by (cases "end") (simp_all add: incomplete_def)
  have "length rest \<le> length (tl t)"
  proof (cases "after_first ''>'' (tl t)")
    case None
    let ?d = "dropWhile (\<lambda>c. c \<noteq> CHR ''<'') (tl t)"
    have "rest = (if ?d = [] then tl t else ?d)"
      using assms(1) e None by (simp add: incomplete_def Let_def)
    then show ?thesis
      using length_dropWhile_le [of "\<lambda>c. c \<noteq> CHR ''<''" "tl t"] by (simp split: if_splits)
  next
    case (Some r)
    then have "rest = r" using assms(1) e by (simp add: incomplete_def)
    with after_first_length [OF Some] show ?thesis by simp
  qed
  with assms(2) show ?thesis by (cases t) auto
qed

lemma tl_dropWhile_le: "length (tl (dropWhile P xs)) \<le> length xs"
  by (metis diff_le_self le_trans length_dropWhile_le length_tl)

lemma charref_step_length:
  assumes "charref_step t = Inr (Continue ev cd rest)" and "startswith t ''&#''"
  shows "length rest < length t"
proof -
  let ?u = "drop 2 t"
  have u: "length ?u < length t"
    using assms(2) by (cases t; cases "tl t") auto
  have "rest = dropWhile is_digit ?u \<or> rest = tl (dropWhile is_digit ?u)
        \<or> rest = dropWhile is_hex (tl ?u) \<or> rest = tl (dropWhile is_hex (tl ?u))"
    using assms(1) by (auto simp: charref_step_def Let_def split: if_splits)
  moreover have "length (dropWhile is_hex (tl ?u)) \<le> length ?u"
    by (metis diff_le_self le_trans length_dropWhile_le length_tl)
  moreover have "length (tl (dropWhile is_hex (tl ?u))) \<le> length ?u"
    by (metis diff_le_self le_trans length_dropWhile_le length_tl)
  ultimately have "length rest \<le> length ?u"
    using length_dropWhile_le [of is_digit ?u] tl_dropWhile_le [of is_digit ?u] by auto
  with u show ?thesis by simp
qed

lemma entityref_step_length:
  assumes "entityref_step end t = Continue ev cd rest" and "t \<noteq> []"
  shows "length rest < length t"
proof (cases "tl t")
  case Nil
  with assms show ?thesis by (simp add: entityref_step_def)
next
  case (Cons a r)
  let ?run = "takeWhile ent_char r"
  let ?after = "dropWhile ent_char r"
  have "rest = ?after \<or> rest = tl ?after
        \<or> rest = drop (length ?run - length (takeWhile is_alnum (rev ?run)) - 1) ?run
        \<or> rest = tl t"
    using assms(1) Cons by (auto simp: entityref_step_def Let_def split: if_splits)
  moreover have "length ?after \<le> length r" by (rule length_dropWhile_le)
  moreover have "length (tl ?after) \<le> length r" by (rule tl_dropWhile_le)
  moreover have "length (drop (length ?run - length (takeWhile is_alnum (rev ?run)) - 1) ?run)
                   \<le> length r"
    using length_takeWhile_le [of ent_char r] by simp
  ultimately have "length rest \<le> length (tl t)" using Cons by auto
  with assms(2) show ?thesis by (cases t) auto
qed

lemma construct_step_length:
  assumes "construct_step u end t = Inr (Continue ev cd rest)" and "t \<noteq> []"
  shows "length rest < length t"
proof -
  have inc: "incomplete end t = Continue ev cd rest \<Longrightarrow> length rest < length t"
    using incomplete_length assms(2) by blast
  have d: "length (drop n t) \<le> length (tl t)" if "n \<ge> 1" for n
    using that by (cases t) auto
  have "length rest \<le> length (tl t) \<or> incomplete end t = Continue ev cd rest"
  proof (cases "is_alpha (hd (tl t))")
    case True
    with assms(1) show ?thesis
      by (auto simp: construct_step_def split: option.splits dest: parse_starttag_length)
  next
    case na: False
    show ?thesis
    proof (cases "startswith t ''</''")
      case True
      with assms(1) na show ?thesis
        by (auto simp: construct_step_def parse_endtag_def split: option.splits
                 dest: after_first_length)
    next
      case ns: False
      show ?thesis
      proof (cases "startswith t ''<!--''")
        case True
        with assms(1) na ns d [of 4] show ?thesis
          by (auto simp: construct_step_def parse_comment_def split: option.splits
                   dest!: comment_close_length)
      next
        case ncm: False
        show ?thesis
        proof (cases "startswith t ''<?''")
          case True
          with assms(1) na ns ncm d [of 2] show ?thesis
            by (auto simp: construct_step_def parse_pi_def split: option.splits
                     dest!: after_first_length)
        next
          case np: False
          show ?thesis
          proof (cases "startswith t ''<!''")
            case True
            with assms(1) na ns ncm np show ?thesis
              by (auto simp: construct_step_def split: option.splits sum.splits
                       dest!: parse_html_declaration_length)
          next
            case False
            with assms(1) na ns ncm np show ?thesis
              by (simp add: construct_step_def)
          qed
        qed
      qed
    qed
  qed
  with inc assms(2) show ?thesis by (cases t) auto
qed

lemma markup_step_length:
  assumes "markup_step u end s = Inr (Continue ev cd rest)"
  shows "length rest < length s"
proof -
  define t where "t = dropWhile (\<lambda>c. c \<noteq> CHR ''&'' \<and> c \<noteq> CHR ''<'') s"
  have ts: "length t \<le> length s" unfolding t_def by (rule length_dropWhile_le)
  have m: "markup_step u end s =
      (if t = [] then Inr (Break [])
       else if startswith t ''<'' then
         (if tl t = [] then Inr (Break t) else construct_step u end t)
       else if startswith t ''&#'' then charref_step t
       else Inr (entityref_step end t))"
    unfolding t_def markup_step_def Let_def ..
  have ne: "t \<noteq> []"
  proof
    assume "t = []"
    with m assms show False by simp
  qed
  have "length rest < length t"
  proof (cases "startswith t ''<''")
    case True
    with m assms ne have "construct_step u end t = Inr (Continue ev cd rest)"
      by (cases "tl t = []") simp_all
    then show ?thesis using ne by (rule construct_step_length)
  next
    case False
    show ?thesis
    proof (cases "startswith t ''&#''")
      case True
      with m assms ne False have "charref_step t = Inr (Continue ev cd rest)" by simp
      then show ?thesis using True by (rule charref_step_length)
    next
      case nc: False
      with m assms ne False have "entityref_step end t = Continue ev cd rest" by simp
      then show ?thesis using ne by (rule entityref_step_length)
    qed
  qed
  with ts show ?thesis by simp
qed

lemma close_tag_here_length: "close_tag_here elem s = Some rest \<Longrightarrow> length rest < length s"
proof -
  assume a: "close_tag_here elem s = Some rest"
  then have sw: "startswith s ''</''" by (auto simp: close_tag_here_def split: if_splits)
  then have l: "length (drop 2 s) < length s" by (cases s; cases "tl s") auto
  let ?t = "dropWhile py_isspace (drop 2 s)"
  from a sw have "rest = tl (dropWhile py_isspace (drop (length elem) ?t))"
    by (auto simp: close_tag_here_def Let_def split: if_splits)
  moreover have "length (tl (dropWhile py_isspace (drop (length elem) ?t))) \<le> length (drop (length elem) ?t)"
    by (rule tl_dropWhile_le)
  moreover have "length (drop (length elem) ?t) \<le> length ?t" by simp
  moreover have "length ?t \<le> length (drop 2 s)" by (rule length_dropWhile_le)
  ultimately show ?thesis using l by simp
qed

lemma cdata_close_length: "cdata_close elem s = Some rest \<Longrightarrow> length rest < length s"
proof (induction s)
  case Nil
  then show ?case by simp
next
  case (Cons c cs)
  show ?case
  proof (cases "close_tag_here elem (c # cs)")
    case None
    with Cons show ?thesis by (auto intro: less_SucI)
  next
    case (Some r)
    with Cons.prems have "r = rest" by simp
    with Some show ?thesis by (auto dest: close_tag_here_length)
  qed
qed

lemma parser_step_length:
  "parser_step u end cdata_elem s = Inr (Continue ev cd rest) \<Longrightarrow> length rest < length s"
  by (auto simp: parser_step_def split: option.splits
           dest: markup_step_length cdata_close_length)

subsection \<open>\<^verbatim>\<open>feed\<close>, \<^verbatim>\<open>close\<close> and the tree\<close>

text \<open>
  \<^verbatim>\<open>goahead(end)\<close> from a position on: the start tags reported, the text left when the loop
  is left, and the element whose content is being read then.
\<close>

function goahead ::
  "(string \<Rightarrow> string) \<Rightarrow> bool \<Rightarrow> string option \<Rightarrow> string
     \<Rightarrow> error + (string \<times> (string \<times> string option) list) list \<times> string \<times> string option" where
  "goahead charref_sub end cdata_elem rawdata =
     (if rawdata = [] then Inr ([], [], cdata_elem)
      else
        (case parser_step charref_sub end cdata_elem rawdata of
           Inl e \<Rightarrow> Inl e
         | Inr (Break rest) \<Rightarrow> Inr ([], rest, cdata_elem)
         | Inr (Continue tag cdata_elem' rest) \<Rightarrow>
             (case goahead charref_sub end cdata_elem' rest of
                Inl e \<Rightarrow> Inl e
              | Inr (tags, rest', cdata_elem'') \<Rightarrow>
                  Inr ((case tag of None \<Rightarrow> [] | Some x \<Rightarrow> [x]) @ tags, rest', cdata_elem''))))"
  by pat_completeness auto
termination
  by (relation "measure (\<lambda>(u, end, cdata_elem, rawdata). length rawdata)")
     (auto dest: parser_step_length)

declare goahead.simps [simp del]

text \<open>
  \<^verbatim>\<open>parser.feed(markup); parser.close()\<close>: \<^verbatim>\<open>goahead(0)\<close> on the whole text, then
  \<^verbatim>\<open>goahead(1)\<close> on what it left.
\<close>

definition feed_close ::
  "(string \<Rightarrow> string) \<Rightarrow> string \<Rightarrow> error + (string \<times> (string \<times> string option) list) list" where
  "feed_close charref_sub markup =
     bind (goahead charref_sub False None markup) (\<lambda>(tags, rest, cdata_elem).
     bind (goahead charref_sub True cdata_elem rest) (\<lambda>(tags', rest', cdata_elem').
     Inr (tags @ tags')))"

text \<open>
  The tree builder's \<^verbatim>\<open>handle_starttag\<close> makes an element of every start tag; an
  attribute without a value gets the empty string.
\<close>

definition handle_starttag :: "string \<times> (string \<times> string option) list \<Rightarrow> element" where
  "handle_starttag tag =
     \<lparr>tag_name = fst tag,
      tag_attrs = map (\<lambda>(key, v). (key, case v of None \<Rightarrow> [] | Some x \<Rightarrow> x)) (snd tag)\<rparr>"

text \<open>
  \<^verbatim>\<open>BeautifulSoup(code, 'html.parser')\<close>, as the analyzer reads it: the elements of the
  document, or the exception raised.
\<close>

definition BeautifulSoup :: "(string \<Rightarrow> string) \<Rightarrow> string \<Rightarrow> error + element list" where
  "BeautifulSoup charref_sub code =
     bind (feed_close charref_sub code) (\<lambda>tags. Inr (map handle_starttag tags))"

section \<open>Properties of the indicator scorer\<close>

lemma step_eq:
  "(if b then (s + w, ls @ [l]) else (s, ls)) =
   (s + (if b then w else 0 :: rat), ls @ (if b then [l] else []))"
  by simp

lemma step_eq0:
  "(if b then (w, [l]) else (0, [])) = ((if b then w else 0 :: rat), (if b then [l] else []))"
  by simp

lemma raw_checks:
  "ai_indicators_raw code =
     (sum_list (map (\<lambda>c. if fst c then weight c else 0) (indicator_checks code)),
      concat (map (\<lambda>c. if fst c then [label c] else []) (indicator_checks code)))"
  unfolding ai_indicators_raw_def indicator_checks_def Let_def weight_def label_def
  by (simp split del: if_split add: step_eq step_eq0 cong: if_cong)

lemma sum_triggered:
  "sum_list (map f (triggered cs)) = sum_list (map (\<lambda>c. if fst c then f c else (0::rat)) cs)"
  by (induction cs) (auto simp: triggered_def)

lemma map_triggered:
  "map f (triggered cs) = concat (map (\<lambda>c. if fst c then [f c] else []) cs)"
  by (induction cs) (auto simp: triggered_def)

lemma raw_triggered:
  "ai_indicators_raw code =
     (sum_list (map weight (triggered (indicator_checks code))),
      map label (triggered (indicator_checks code)))"
proof -
  have "sum_list (map weight (triggered (indicator_checks code))) =
        sum_list (map (\<lambda>c. if fst c then weight c else 0) (indicator_checks code))"
    by (rule sum_triggered)
  moreover have "map label (triggered (indicator_checks code)) =
        concat (map (\<lambda>c. if fst c then [label c] else []) (indicator_checks code))"
    by (rule map_triggered)
  ultimately show ?thesis by (simp only: raw_checks)
qed

lemma all_indicators_text_checks: "list_all fst (indicator_checks all_indicators_text)"
  unfolding indicator_checks_def all_indicators_text_def
  by (simp add: py_isspace_def kebab_here_def kebab_char_def bootstrap_classes_def)

lemma weights_total: "sum_list (map weight (indicator_checks code)) = 9"
  by (simp add: indicator_checks_def weight_def)

lemma weights_nonneg: "c \<in> set (indicator_checks code) \<Longrightarrow> 0 \<le> weight c"
  by (auto simp: indicator_checks_def weight_def)

lemma triggered_all: "list_all fst cs \<Longrightarrow> triggered cs = cs"
  by (induction cs) (auto simp: triggered_def)

lemma sum_triggered_le:
  "(\<And>c. c \<in> set cs \<Longrightarrow> 0 \<le> weight c) \<Longrightarrow>
   0 \<le> sum_list (map weight (triggered cs)) \<and>
   sum_list (map weight (triggered cs)) \<le> sum_list (map weight cs)"
  by (induction cs) (auto simp: triggered_def add_nonneg_nonneg intro: add_increasing)

lemma raw_bounds: "0 \<le> fst (ai_indicators_raw code) \<and> fst (ai_indicators_raw code) \<le> 9"
  using sum_triggered_le [of "indicator_checks code", OF weights_nonneg]
  by (simp add: raw_triggered weights_total)

lemma structure_score_le: "structure_score s \<le> 8"
  by (simp add: structure_score_def of_bool_def)

text \<open>
  C6, as the specification states it, fails: with all ten checks triggered the weights add
  up to 9, not to 9.5.
\<close>

theorem all_checks_raw_sum_counterexample:
  "list_all fst (indicator_checks all_indicators_text)
   \<and> fst (ai_indicators_raw all_indicators_text) \<noteq> 19 / 2"
  using all_indicators_text_checks by (simp add: raw_triggered triggered_all weights_total)

text \<open>
  C6, amended: when all ten checks trigger the raw weighted sum is 9; for every input the
  raw sum is at most 9, so the cap of 10 never changes it and the returned score lies in
  [0, 10]; the structure score is a natural number of at most 8.
\<close>

theorem score_bounds:
  "(list_all fst (indicator_checks code) \<longrightarrow> fst (ai_indicators_raw code) = 9)
   \<and> fst (ai_indicators_raw code) \<le> 9
   \<and> fst (check_ai_indicators code) = fst (ai_indicators_raw code)
   \<and> 0 \<le> fst (check_ai_indicators code) \<and> fst (check_ai_indicators code) \<le> 10
   \<and> structure_score s \<le> 8"
  using raw_bounds [of code]
  by (auto simp: check_ai_indicators_def raw_triggered triggered_all weights_total
        structure_score_le split: prod.splits)

theorem score_bounds_witness:
  "list_all fst (indicator_checks all_indicators_text)
   \<and> fst (ai_indicators_raw all_indicators_text) = 9
   \<and> fst (check_ai_indicators all_indicators_text) = 9"
  using score_bounds [of all_indicators_text] all_indicators_text_checks by simp

text \<open>
  C7: the returned score is the sum of the weights of the triggered checks, clamped at 10,
  and the returned list holds the labels of exactly the triggered checks, in the order of
  the ten checks.
\<close>

theorem score_is_clamped_sum_of_triggered:
  "check_ai_indicators code =
     (min (sum_list (map weight (triggered (indicator_checks code)))) 10,
      map label (triggered (indicator_checks code)))"
  by (simp add: check_ai_indicators_def raw_triggered)

lemma label_weight_checks:
  "c \<in> set (indicator_checks code) \<Longrightarrow> label_weight (label c) = weight c"
  unfolding indicator_checks_def
  by (auto simp: label_weight_def label_def weight_def)

text \<open>
  C9: the returned score is the sum, capped at 10, of the weights that belong to the
  labels in the returned list.
\<close>

theorem score_agrees_with_labels:
  "fst (check_ai_indicators code) =
     min (sum_list (map label_weight (snd (check_ai_indicators code)))) 10"
proof -
  let ?T = "triggered (indicator_checks code)"
  have eq: "map (label_weight \<circ> label) ?T = map weight ?T"
    by (auto simp: triggered_def label_weight_checks)
  have s: "snd (check_ai_indicators code) = map label ?T"
    by (simp add: check_ai_indicators_def raw_triggered)
  have f: "fst (check_ai_indicators code) = min (sum_list (map weight ?T)) 10"
    by (simp add: check_ai_indicators_def raw_triggered)
  show ?thesis
    unfolding s f map_map eq ..
qed

lemma indent_at_0: "indent_at bol (c # d # cs) 0 = (bol \<and> py_isspace c \<and> py_isspace d)"
  by (simp add: indent_at_def)

lemma indent_at_Suc: "indent_at bol (c # d # cs) (Suc q) = indent_at (c = CHR 0x0A) (d # cs) q"
  by (cases q) (simp_all add: indent_at_def)

lemma indent_at_short: "length s < 2 \<Longrightarrow> \<not> indent_at bol s p"
  by (simp add: indent_at_def)

lemma search_indent_iff: "search_indent bol s = (\<exists>p. indent_at bol s p)"
proof (induction bol s rule: search_indent.induct)
  case (1 bol c d cs)
  have "(\<exists>p. indent_at bol (c # d # cs) p) \<longleftrightarrow>
        indent_at bol (c # d # cs) 0 \<or> (\<exists>q. indent_at bol (c # d # cs) (Suc q))"
    by (metis not0_implies_Suc)
  then show ?case
    by (simp only: search_indent.simps 1 indent_at_0 indent_at_Suc)
qed (simp_all add: indent_at_short)

lemma mem_labels:
  "l \<in> set (map label (triggered cs)) \<longleftrightarrow> (\<exists>c \<in> set cs. fst c \<and> label c = l)"
  by (auto simp: triggered_def)

lemma indent_label_iff:
  "''Consistent 2-space indentation'' \<in> set (snd (check_ai_indicators code))
     \<longleftrightarrow> search_indent True code"
proof -
  have "snd (check_ai_indicators code) = map label (triggered (indicator_checks code))"
    by (simp add: check_ai_indicators_def raw_triggered)
  then have "''Consistent 2-space indentation'' \<in> set (snd (check_ai_indicators code))
     \<longleftrightarrow> (\<exists>c \<in> set (indicator_checks code).
            fst c \<and> label c = ''Consistent 2-space indentation'')"
    by (simp only: mem_labels)
  also have "\<dots> \<longleftrightarrow> search_indent True code"
    by (simp add: indicator_checks_def label_def)
  finally show ?thesis .
qed

text \<open>
  C10: the first indicator triggers exactly when some line of the input begins with two
  whitespace characters of any kind. So it triggers on a line indented with two tabs and
  on a run of blank lines, neither of which contains two spaces in a row.
\<close>

theorem indent_indicator_any_whitespace:
  "(''Consistent 2-space indentation'' \<in> set (snd (check_ai_indicators code))
      \<longleftrightarrow> (\<exists>p. indent_at True code p))
   \<and> ''Consistent 2-space indentation''
        \<in> set (snd (check_ai_indicators [CHR 0x09, CHR 0x09, CHR ''x'']))
   \<and> \<not> contains [CHR 0x09, CHR 0x09, CHR ''x''] ''  ''
   \<and> ''Consistent 2-space indentation''
        \<in> set (snd (check_ai_indicators ''a\<newline>\<newline>\<newline>b''))
   \<and> \<not> contains ''a\<newline>\<newline>\<newline>b'' ''  ''"
proof -
  have "''Consistent 2-space indentation'' \<in> set (snd (check_ai_indicators code))
      \<longleftrightarrow> (\<exists>p. indent_at True code p)"
    by (simp only: indent_label_iff search_indent_iff)
  moreover have "search_indent True [CHR 0x09, CHR 0x09, CHR ''x'']"
    by (simp add: py_isspace_def)
  moreover have "search_indent True ''a\<newline>\<newline>\<newline>b''"
    by (simp add: py_isspace_def)
  ultimately show ?thesis
    by (simp add: indent_label_iff)
qed

section \<open>Properties of the similarity scorer\<close>

subsection \<open>No read outside the texts\<close>

text \<open>
  A search within rows and columns that lie inside the two texts reads no index outside
  them, and the block it finds lies within those rows and columns.
\<close>

definition blk_ok :: "nat \<Rightarrow> nat \<Rightarrow> nat \<Rightarrow> nat \<Rightarrow> block \<Rightarrow> bool" where
  "blk_ok alo ahi blo bhi best =
     (case best of (besti, bestj, bestsize) \<Rightarrow>
        alo \<le> besti \<and> besti + bestsize \<le> ahi \<and> blo \<le> bestj \<and> bestj + bestsize \<le> bhi)"

definition col_ok :: "(nat \<rightharpoonup> nat) \<Rightarrow> nat \<Rightarrow> bool" where
  "col_ok j2len blo = (\<forall>j v. j2len j = Some v \<longrightarrow> v \<le> Suc j - blo)"

definition b_ok :: "nat \<Rightarrow> nat \<Rightarrow> block \<Rightarrow> bool" where
  "b_ok blo bhi best = (case best of (besti, bestj, bestsize) \<Rightarrow> blo \<le> bestj \<and> bestj + bestsize \<le> bhi)"

lemma getitem_Inr: "i < length xs \<Longrightarrow> getitem xs i = Inr (xs ! i)"
  by (simp add: getitem_def)

lemma row_scan_b:
  "row_scan i blo bhi j2len js (new, best) = (new', best') \<Longrightarrow>
   col_ok j2len blo \<Longrightarrow> col_ok new blo \<Longrightarrow> b_ok blo bhi best \<Longrightarrow>
   col_ok new' blo \<and> b_ok blo bhi best'"
proof (induction js arbitrary: new best)
  case Nil
  then show ?case by simp
next
  case (Cons j js)
  obtain bi bj bs where best: "best = (bi, bj, bs)" by (cases best)
  let ?k = "(if j = 0 then 0 else case j2len (j - 1) of None \<Rightarrow> 0 | Some v \<Rightarrow> v) + 1"
  show ?case
  proof (cases "j < blo")
    case True
    with Cons best show ?thesis by simp
  next
    case False
    show ?thesis
    proof (cases "j \<ge> bhi")
      case True
      with Cons.prems False best show ?thesis by simp
    next
      case nb: False
      have "j \<noteq> 0 \<Longrightarrow> (case j2len (j - 1) of None \<Rightarrow> 0 | Some v \<Rightarrow> v) \<le> j - blo"
        using Cons.prems(2) by (fastforce simp: col_ok_def split: option.splits)
      then have k: "?k \<le> Suc j - blo"
        using False by auto
      have new: "col_ok (new(j \<mapsto> ?k)) blo"
        using Cons.prems(3) k by (auto simp: col_ok_def)
      show ?thesis
      proof (cases "?k > bs")
        case True
        have "b_ok blo bhi (i + 1 - ?k, j + 1 - ?k, ?k)"
          using k False nb by (simp add: b_ok_def)
        moreover have "row_scan i blo bhi j2len js (new(j \<mapsto> ?k), (i + 1 - ?k, j + 1 - ?k, ?k)) = (new', best')"
          using Cons.prems(1) False nb True best by (simp add: Let_def)
        ultimately show ?thesis
          using Cons.IH Cons.prems(2) new by blast
      next
        case nk: False
        have "row_scan i blo bhi j2len js (new(j \<mapsto> ?k), best) = (new', best')"
          using Cons.prems(1) False nb nk best by (simp add: Let_def)
        then show ?thesis
          using Cons.IH Cons.prems(2,4) new by blast
      qed
    qed
  qed
qed

lemma col_ok_empty: "col_ok Map.empty blo"
  by (simp add: col_ok_def)

lemma scan_rows_safe:
  "ahi \<le> length a \<Longrightarrow> col_ok j2len blo \<Longrightarrow> b_ok blo bhi best \<Longrightarrow>
   \<exists>r. scan_rows a b2j blo bhi [i..<ahi] j2len best = Inr r \<and> b_ok blo bhi r"
proof (induction "ahi - i" arbitrary: i j2len best)
  case 0
  then show ?case by simp
next
  case (Suc n)
  then have lt: "i < ahi" by simp
  then have rows: "[i..<ahi] = i # [Suc i..<ahi]" by (simp add: upt_conv_Cons)
  have elt: "getitem a i = Inr (a ! i)"
    using lt Suc.prems(1) by (simp add: getitem_Inr)
  obtain new' best' where rs: "row_scan i blo bhi j2len (b2j (a ! i)) (Map.empty, best) = (new', best')"
    by (cases "row_scan i blo bhi j2len (b2j (a ! i)) (Map.empty, best)")
  have inv: "col_ok new' blo \<and> b_ok blo bhi best'"
    using row_scan_b [OF rs Suc.prems(2) col_ok_empty Suc.prems(3)] .
  have "\<exists>r. scan_rows a b2j blo bhi [Suc i..<ahi] new' best' = Inr r \<and> b_ok blo bhi r"
    using Suc.hyps(1) [of "Suc i" new' best'] Suc.hyps(2) Suc.prems(1) inv by auto
  then show ?case
    using rows elt rs by simp
qed

lemma blk_ok_iff: "blk_ok alo ahi blo bhi best \<longleftrightarrow> a_ok alo ahi best \<and> b_ok blo bhi best"
  by (auto simp: blk_ok_def a_ok_def b_ok_def)

lemma extend_left_safe:
  "blk_ok alo ahi blo bhi best \<Longrightarrow> ahi \<le> length a \<Longrightarrow> bhi \<le> length b \<Longrightarrow>
   \<exists>r. extend_left ok a b alo blo best = Inr r \<and> blk_ok alo ahi blo bhi r"
proof (induction ok a b alo blo best rule: extend_left.induct)
  case (1 ok a b alo blo besti bestj bestsize)
  have ga: "besti > alo \<Longrightarrow> getitem a (besti - 1) = Inr (a ! (besti - 1))"
    using "1.prems" by (intro getitem_Inr) (auto simp: blk_ok_def)
  have gb: "bestj > blo \<Longrightarrow> getitem b (bestj - 1) = Inr (b ! (bestj - 1))"
    using "1.prems" by (intro getitem_Inr) (auto simp: blk_ok_def)
  show ?case
  proof (cases "besti > alo \<and> bestj > blo \<and> ok (b ! (bestj - 1)) \<and> a ! (besti - 1) = b ! (bestj - 1)")
    case True
    have step: "extend_left ok a b alo blo (besti, bestj, bestsize) =
                extend_left ok a b alo blo (besti - 1, bestj - 1, bestsize + 1)"
      using True ga gb by (subst extend_left.simps) simp
    have "blk_ok alo ahi blo bhi (besti - 1, bestj - 1, bestsize + 1)"
      using "1.prems"(1) True by (auto simp: blk_ok_def)
    then show ?thesis
      using "1.IH" [of "b ! (bestj - 1)" "a ! (besti - 1)"] True ga gb "1.prems"(2,3) step by simp
  next
    case False
    then have "extend_left ok a b alo blo (besti, bestj, bestsize) = Inr (besti, bestj, bestsize)"
      using ga gb by (subst extend_left.simps) auto
    with "1.prems"(1) show ?thesis by simp
  qed
qed

lemma extend_right_safe:
  "blk_ok alo ahi blo bhi best \<Longrightarrow> ahi \<le> length a \<Longrightarrow> bhi \<le> length b \<Longrightarrow>
   \<exists>r. extend_right ok a b ahi bhi best = Inr r \<and> blk_ok alo ahi blo bhi r"
proof (induction ok a b ahi bhi best rule: extend_right.induct)
  case (1 ok a b ahi bhi besti bestj bestsize)
  have ga: "besti + bestsize < ahi \<Longrightarrow> getitem a (besti + bestsize) = Inr (a ! (besti + bestsize))"
    using "1.prems" by (intro getitem_Inr) (auto simp: blk_ok_def)
  have gb: "bestj + bestsize < bhi \<Longrightarrow> getitem b (bestj + bestsize) = Inr (b ! (bestj + bestsize))"
    using "1.prems" by (intro getitem_Inr) (auto simp: blk_ok_def)
  show ?case
  proof (cases "besti + bestsize < ahi \<and> bestj + bestsize < bhi \<and> ok (b ! (bestj + bestsize))
                 \<and> a ! (besti + bestsize) = b ! (bestj + bestsize)")
    case True
    have step: "extend_right ok a b ahi bhi (besti, bestj, bestsize) =
                extend_right ok a b ahi bhi (besti, bestj, bestsize + 1)"
      using True ga gb by (subst extend_right.simps) simp
    have "blk_ok alo ahi blo bhi (besti, bestj, bestsize + 1)"
      using "1.prems"(1) True by (auto simp: blk_ok_def)
    then show ?thesis
      using "1.IH" [of "b ! (bestj + bestsize)" "a ! (besti + bestsize)"] True ga gb "1.prems"(2,3) step
      by simp
  next
    case False
    then have "extend_right ok a b ahi bhi (besti, bestj, bestsize) = Inr (besti, bestj, bestsize)"
      using ga gb by (subst extend_right.simps) auto
    with "1.prems"(1) show ?thesis by simp
  qed
qed

definition range_ok :: "string \<Rightarrow> string \<Rightarrow> nat \<times> nat \<times> nat \<times> nat \<Rightarrow> bool" where
  "range_ok a b q = (case q of (alo, ahi, blo, bhi) \<Rightarrow>
      alo \<le> ahi \<and> ahi \<le> length a \<and> blo \<le> bhi \<and> bhi \<le> length b)"

lemma find_longest_match_safe:
  assumes "range_ok a b (alo, ahi, blo, bhi)"
  shows "\<exists>r. find_longest_match a b alo ahi blo bhi = Inr r \<and> blk_ok alo ahi blo bhi r"
proof -
  from assms have r: "alo \<le> ahi" "ahi \<le> length a" "blo \<le> bhi" "bhi \<le> length b"
    by (auto simp: range_ok_def)
  obtain b1 where s1: "scan_rows a (chain_b b) blo bhi [alo..<ahi] Map.empty (alo, blo, 0) = Inr b1"
    and b1: "b_ok blo bhi b1"
    using scan_rows_safe [OF r(2) col_ok_empty, of blo bhi "(alo, blo, 0)" "chain_b b" alo] r(3)
    by (auto simp: b_ok_def)
  have "a_ok alo (max alo ahi) b1"
    using scan_rows_a [OF s1, of alo] by (simp add: len_ok_empty a_ok_def)
  with b1 r(1) have k1: "blk_ok alo ahi blo bhi b1" by (simp add: blk_ok_iff max_def)
  obtain b2 where s2: "extend_left (\<lambda>c. \<not> isbjunk c) a b alo blo b1 = Inr b2"
    and k2: "blk_ok alo ahi blo bhi b2"
    using extend_left_safe [OF k1 r(2) r(4)] by blast
  obtain b3 where s3: "extend_right (\<lambda>c. \<not> isbjunk c) a b ahi bhi b2 = Inr b3"
    and k3: "blk_ok alo ahi blo bhi b3"
    using extend_right_safe [OF k2 r(2) r(4)] by blast
  obtain b4 where s4: "extend_left isbjunk a b alo blo b3 = Inr b4"
    and k4: "blk_ok alo ahi blo bhi b4"
    using extend_left_safe [OF k3 r(2) r(4)] by blast
  obtain b5 where s5: "extend_right isbjunk a b ahi bhi b4 = Inr b5"
    and k5: "blk_ok alo ahi blo bhi b5"
    using extend_right_safe [OF k4 r(2) r(4)] by blast
  show ?thesis
    unfolding find_longest_match_def using s1 s2 s3 s4 s5 k5 by (simp add: bind_def)
qed

lemma match_queue_safe:
  "list_all (range_ok a b) queue \<Longrightarrow> \<exists>r. match_queue a b queue blocks = Inr r"
proof (induction a b queue blocks rule: match_queue.induct)
  case (1 a b matching_blocks)
  then show ?case by simp
next
  case (2 a b alo ahi blo bhi queue matching_blocks)
  from "2.prems" have q: "range_ok a b (alo, ahi, blo, bhi)" and rest: "list_all (range_ok a b) queue"
    by simp_all
  obtain i j k where f: "find_longest_match a b alo ahi blo bhi = Inr (i, j, k)"
    and ok: "blk_ok alo ahi blo bhi (i, j, k)"
    using find_longest_match_safe [OF q] by (metis prod_cases3)
  show ?case
  proof (cases "k \<noteq> 0")
    case True
    let ?queue = "(if i + k < ahi \<and> j + k < bhi then [(i + k, ahi, j + k, bhi)] else [])
                 @ (if alo < i \<and> blo < j then [(alo, i, blo, j)] else []) @ queue"
    have "list_all (range_ok a b) ?queue"
      using q rest ok by (auto simp: range_ok_def blk_ok_def)
    then have "\<exists>r. match_queue a b ?queue (matching_blocks @ [(i, j, k)]) = Inr r"
      using "2.IH"(1) [OF f refl refl True] by simp
    with f True show ?thesis by simp
  next
    case False
    then have "\<exists>r. match_queue a b queue matching_blocks = Inr r"
      using "2.IH"(2) [OF f refl refl] rest by simp
    with f False show ?thesis by simp
  qed
qed

lemma calculate_similarity_total: "\<exists>r. calculate_similarity text1 text2 = Inr r"
proof -
  let ?a = "strip text1" and ?b = "strip text2"
  have "list_all (range_ok ?a ?b) [(0, length ?a, 0, length ?b)]"
    by (simp add: range_ok_def)
  then obtain bl where "match_queue ?a ?b [(0, length ?a, 0, length ?b)] [] = Inr bl"
    using match_queue_safe by blast
  then show ?thesis
    by (simp add: calculate_similarity_def ratio_def get_matching_blocks_def bind_def)
qed

subsection \<open>A text compared with itself\<close>

text \<open>
  When a text is matched against itself, the first longest block the search finds lies on
  the diagonal, whatever characters are popular, and the two extension loops then stretch
  it over the whole text. \<open>run_len x j\<close> is the length of the run of characters that are not
  popular and that ends at index \<open>j\<close>.
\<close>

fun run_len :: "string \<Rightarrow> nat \<Rightarrow> nat" where
  "run_len x 0 = (if popular x (x ! 0) then 0 else 1)"
| "run_len x (Suc j) = (if popular x (x ! Suc j) then 0 else run_len x j + 1)"

definition run_before :: "string \<Rightarrow> nat \<Rightarrow> nat" where
  "run_before x i = (if i = 0 then 0 else run_len x (i - 1))"

definition lookup :: "(nat \<rightharpoonup> nat) \<Rightarrow> nat \<Rightarrow> nat" where
  "lookup m j = (case m j of None \<Rightarrow> 0 | Some v \<Rightarrow> v)"

definition prev_len :: "(nat \<rightharpoonup> nat) \<Rightarrow> nat \<Rightarrow> nat" where
  "prev_len j2len j = (if j = 0 then 0 else lookup j2len (j - 1))"

definition prev_inv :: "string \<Rightarrow> nat \<Rightarrow> (nat \<rightharpoonup> nat) \<Rightarrow> bool" where
  "prev_inv x i j2len =
     ((\<forall>j. lookup j2len j \<le> run_len x j \<and> lookup j2len j \<le> run_before x i)
      \<and> prev_len j2len i = run_before x i)"

definition diag_inv :: "string \<Rightarrow> nat \<Rightarrow> block \<Rightarrow> bool" where
  "diag_inv x i best = (case best of (besti, bestj, bestsize) \<Rightarrow>
      besti = bestj \<and> (\<forall>j<i. run_len x j \<le> bestsize))"

definition in_inv :: "string \<Rightarrow> nat \<Rightarrow> nat list \<Rightarrow> (nat \<rightharpoonup> nat) \<Rightarrow> block \<Rightarrow> bool" where
  "in_inv x i js new best =
     (diag_inv x i best
      \<and> (i \<in> set js \<or> (run_len x i \<le> snd (snd best) \<and> lookup new i = run_len x i))
      \<and> (\<forall>j. lookup new j \<le> run_len x j \<and> lookup new j \<le> run_len x i))"

lemma run_len_eq: "run_len x j = (if popular x (x ! j) then 0 else run_before x j + 1)"
  by (cases j) (auto simp: run_before_def)

lemma run_before_Suc: "run_before x (Suc i) = run_len x i"
  by (simp add: run_before_def)

lemma prev_len_Suc: "prev_len m (Suc i) = lookup m i"
  by (simp add: prev_len_def)

lemma lookup_empty: "lookup Map.empty j = 0"
  by (simp add: lookup_def)

lemma lookup_upd: "lookup (m(j \<mapsto> k)) j' = (if j' = j then k else lookup m j')"
  by (simp add: lookup_def)

lemma prev_len_le:
  "prev_inv x i j2len \<Longrightarrow> prev_len j2len j \<le> run_before x j \<and> prev_len j2len j \<le> run_before x i"
  by (auto simp: prev_inv_def prev_len_def run_before_def)

lemma k_eq: "(if j = 0 then 0 else case j2len (j - 1) of None \<Rightarrow> 0 | Some v \<Rightarrow> v) = prev_len j2len j"
  by (simp add: prev_len_def lookup_def)

lemma row_scan_diag:
  "row_scan i 0 n j2len js (new, best) = (new', best') \<Longrightarrow> sorted_wrt (<) js \<Longrightarrow>
   (\<forall>j\<in>set js. j < n \<and> \<not> popular x (x ! j)) \<Longrightarrow> prev_inv x i j2len \<Longrightarrow>
   \<not> popular x (x ! i) \<Longrightarrow> in_inv x i js new best \<Longrightarrow> in_inv x i [] new' best'"
proof (induction js arbitrary: new best)
  case Nil
  then show ?case by simp
next
  case (Cons j js)
  obtain bi bj bs where best: "best = (bi, bj, bs)" by (cases best)
  let ?k = "prev_len j2len j + 1"
  have jn: "j < n" and jpop: "\<not> popular x (x ! j)" using Cons.prems(3) by auto
  have kj: "?k \<le> run_len x j"
    using prev_len_le [OF Cons.prems(4), of j] jpop by (simp add: run_len_eq)
  have ki: "?k \<le> run_len x i"
    using prev_len_le [OF Cons.prems(4), of j] Cons.prems(5) by (simp add: run_len_eq)
  have kii: "j = i \<Longrightarrow> ?k = run_len x i"
    using Cons.prems(4,5) by (simp add: run_len_eq prev_inv_def)
  from Cons.prems(6) best have d: "bi = bj" and below: "\<forall>j<i. run_len x j \<le> bs"
    and third: "i \<in> set (j # js) \<or> (run_len x i \<le> bs \<and> lookup new i = run_len x i)"
    and bnd: "\<forall>j. lookup new j \<le> run_len x j \<and> lookup new j \<le> run_len x i"
    by (auto simp: in_inv_def diag_inv_def)
  have sorted: "sorted_wrt (<) js" and gt: "\<forall>j'\<in>set js. j < j'"
    using Cons.prems(2) by auto
  have rest: "\<forall>j\<in>set js. j < n \<and> \<not> popular x (x ! j)" using Cons.prems(3) by auto
  have bnd': "\<forall>j'. lookup (new(j \<mapsto> ?k)) j' \<le> run_len x j' \<and> lookup (new(j \<mapsto> ?k)) j' \<le> run_len x i"
    using bnd kj ki by (simp add: lookup_upd)
  have upd_diag: "?k > bs \<Longrightarrow> j = i"
  proof (rule ccontr)
    assume big: "?k > bs" and ne: "j \<noteq> i"
    show False
    proof (cases "j < i")
      case True
      with below kj big show False by fastforce
    next
      case False
      with ne have "i < j" by simp
      with gt have "i \<notin> set (j # js)" by auto
      with third have "run_len x i \<le> bs" by simp
      with ki big show False by simp
    qed
  qed
  have third': "i \<in> set js \<or> (run_len x i \<le> bs' \<and> lookup (new(j \<mapsto> ?k)) i = run_len x i)"
    if "bs' \<ge> bs" and "?k \<le> bs'" for bs'
  proof (cases "j = i")
    case True
    with that kii show ?thesis by (simp add: lookup_upd)
  next
    case False
    with that third show ?thesis by (auto simp: lookup_upd)
  qed
  show ?case
  proof (cases "?k > bs")
    case True
    then have ji: "j = i" by (rule upd_diag)
    have step: "row_scan i 0 n j2len js (new(j \<mapsto> ?k), (i + 1 - ?k, j + 1 - ?k, ?k)) = (new', best')"
      using Cons.prems(1) jn True best by (simp add: Let_def k_eq)
    have inv: "in_inv x i js (new(j \<mapsto> ?k)) (i + 1 - ?k, j + 1 - ?k, ?k)"
      using ji below True bnd' third' [of ?k]
      by (auto simp: in_inv_def diag_inv_def intro: order_trans less_imp_le)
    show ?thesis
      by (rule Cons.IH [OF step sorted rest Cons.prems(4,5) inv])
  next
    case False
    have step: "row_scan i 0 n j2len js (new(j \<mapsto> ?k), best) = (new', best')"
      using Cons.prems(1) jn False best by (simp add: Let_def k_eq)
    have inv: "in_inv x i js (new(j \<mapsto> ?k)) best"
      using best d below False bnd' third' [of bs]
      by (auto simp: in_inv_def diag_inv_def)
    show ?thesis
      by (rule Cons.IH [OF step sorted rest Cons.prems(4,5) inv])
  qed
qed

lemma indices_sorted: "sorted_wrt (<) (indices x c)"
  unfolding indices_def by (intro sorted_wrt_filter) (simp add: sorted_wrt_upt)

lemma indices_set: "set (indices x c) = {j. j < length x \<and> x ! j = c}"
  by (auto simp: indices_def)

lemma row_diag:
  assumes rs: "row_scan i 0 (length x) j2len (chain_b x (x ! i)) (Map.empty, best) = (new', best')"
    and i: "i < length x" and p: "prev_inv x i j2len" and d: "diag_inv x i best"
  shows "prev_inv x (Suc i) new' \<and> diag_inv x (Suc i) best'"
proof (cases "popular x (x ! i)")
  case True
  then have "new' = Map.empty" "best' = best" using rs by (simp_all add: chain_b_def)
  moreover have "run_len x i = 0" using True by (simp add: run_len_eq)
  ultimately show ?thesis
    using d by (auto simp: prev_inv_def diag_inv_def lookup_empty run_before_Suc prev_len_Suc
                      less_Suc_eq)
next
  case False
  let ?js = "indices x (x ! i)"
  have rs': "row_scan i 0 (length x) j2len ?js (Map.empty, best) = (new', best')"
    using rs False by (simp add: chain_b_def)
  have mem: "i \<in> set ?js" using i by (simp add: indices_set)
  have all: "\<forall>j\<in>set ?js. j < length x \<and> \<not> popular x (x ! j)"
    using False by (simp add: indices_set)
  have "in_inv x i ?js Map.empty best"
    using d mem by (simp add: in_inv_def lookup_empty)
  then have r: "in_inv x i [] new' best'"
    using row_scan_diag [OF rs' indices_sorted all p False] by simp
  obtain bi bj bs where best': "best' = (bi, bj, bs)" by (cases best')
  from r best' show ?thesis
    by (auto simp: in_inv_def prev_inv_def diag_inv_def run_before_Suc prev_len_Suc less_Suc_eq)
qed

lemma scan_rows_diag:
  "scan_rows x (chain_b x) 0 (length x) [i..<length x] j2len best = Inr r \<Longrightarrow>
   prev_inv x i j2len \<Longrightarrow> diag_inv x i best \<Longrightarrow> fst r = fst (snd r)"
proof (induction "length x - i" arbitrary: i j2len best)
  case 0
  then show ?case by (auto simp: diag_inv_def)
next
  case (Suc m)
  then have lt: "i < length x" by simp
  then have rows: "[i..<length x] = i # [Suc i..<length x]" by (simp add: upt_conv_Cons)
  have elt: "getitem x i = Inr (x ! i)" using lt by (simp add: getitem_Inr)
  obtain new' best' where
    rs: "row_scan i 0 (length x) j2len (chain_b x (x ! i)) (Map.empty, best) = (new', best')"
    by (cases "row_scan i 0 (length x) j2len (chain_b x (x ! i)) (Map.empty, best)")
  have inv: "prev_inv x (Suc i) new' \<and> diag_inv x (Suc i) best'"
    using row_diag [OF rs lt Suc.prems(2,3)] .
  have rec: "scan_rows x (chain_b x) 0 (length x) [Suc i..<length x] new' best' = Inr r"
    using Suc.prems(1) rows elt rs by simp
  show ?case
    using Suc.hyps(1) [of "Suc i" new' best'] Suc.hyps(2) rec inv by auto
qed

lemma extend_left_diag:
  "p \<le> length x \<Longrightarrow> extend_left (\<lambda>c. \<not> isbjunk c) x x 0 0 (p, p, s) = Inr (0, 0, s + p)"
proof (induction p arbitrary: s)
  case 0
  then show ?case by (simp add: extend_left.simps)
next
  case (Suc p)
  then have "extend_left (\<lambda>c. \<not> isbjunk c) x x 0 0 (Suc p, Suc p, s) =
             extend_left (\<lambda>c. \<not> isbjunk c) x x 0 0 (p, p, s + 1)"
    by (subst extend_left.simps) (simp add: getitem_Inr isbjunk_def)
  with Suc show ?case by simp
qed

lemma extend_right_diag:
  "s \<le> length x \<Longrightarrow>
   extend_right (\<lambda>c. \<not> isbjunk c) x x (length x) (length x) (0, 0, s) = Inr (0, 0, length x)"
proof (induction "length x - s" arbitrary: s)
  case 0
  then show ?case by (simp add: extend_right.simps)
next
  case (Suc m)
  then have lt: "s < length x" by simp
  then have "extend_right (\<lambda>c. \<not> isbjunk c) x x (length x) (length x) (0, 0, s) =
             extend_right (\<lambda>c. \<not> isbjunk c) x x (length x) (length x) (0, 0, s + 1)"
    by (subst extend_right.simps) (simp add: getitem_Inr isbjunk_def)
  moreover have "extend_right (\<lambda>c. \<not> isbjunk c) x x (length x) (length x) (0, 0, s + 1)
        = Inr (0, 0, length x)"
    using Suc.hyps(1) [of "s + 1"] Suc.hyps(2) lt by simp
  ultimately show ?case by simp
qed

lemma find_longest_match_self:
  "find_longest_match x x 0 (length x) 0 (length x) = Inr (0, 0, length x)"
proof -
  let ?n = "length x"
  obtain b1 where s1: "scan_rows x (chain_b x) 0 ?n [0..<?n] Map.empty (0, 0, 0) = Inr b1"
    using scan_rows_safe [OF order_refl col_ok_empty, of 0 ?n "(0, 0, 0)" x "chain_b x" 0]
    by (auto simp: b_ok_def)
  obtain p q s where b1: "b1 = (p, q, s)" by (cases b1)
  have "prev_inv x 0 Map.empty" by (simp add: prev_inv_def lookup_empty prev_len_def run_before_def)
  moreover have "diag_inv x 0 (0, 0, 0)" by (simp add: diag_inv_def)
  ultimately have pq: "q = p" using scan_rows_diag [OF s1] b1 by simp
  have "a_ok 0 (max 0 ?n) b1"
    using scan_rows_a [OF s1, of 0] by (simp add: len_ok_empty a_ok_def)
  then have ps: "p + s \<le> ?n" using b1 by (simp add: a_ok_def)
  have s2: "extend_left (\<lambda>c. \<not> isbjunk c) x x 0 0 b1 = Inr (0, 0, s + p)"
    using extend_left_diag [of p x s] ps b1 pq by simp
  have s3: "extend_right (\<lambda>c. \<not> isbjunk c) x x ?n ?n (0, 0, s + p) = Inr (0, 0, ?n)"
    using extend_right_diag [of "s + p" x] ps by (simp add: add.commute)
  have s4: "extend_left isbjunk x x 0 0 (0, 0, ?n) = Inr (0, 0, ?n)"
    by (simp add: extend_left.simps)
  have s5: "extend_right isbjunk x x ?n ?n (0, 0, ?n) = Inr (0, 0, ?n)"
    by (simp add: extend_right.simps)
  show ?thesis
    unfolding find_longest_match_def using s1 s2 s3 s4 s5 by (simp add: bind_def)
qed

lemma ratio_self: "ratio x x = Inr 1"
proof (cases "x = []")
  case True
  have "find_longest_match [] [] 0 0 0 0 = Inr (0, 0, 0)"
    using find_longest_match_self [of "[]"] by simp
  then show ?thesis
    using True by (simp add: ratio_def get_matching_blocks_def bind_def calculate_ratio_def)
next
  case False
  then have n: "length x \<noteq> 0" by simp
  have "match_queue x x [(0, length x, 0, length x)] [] = Inr [(0, 0, length x)]"
    using n by (simp add: find_longest_match_self)
  then show ?thesis
    using n by (simp add: ratio_def get_matching_blocks_def bind_def calculate_ratio_def)
qed

subsection \<open>The claims about the similarity\<close>






text \<open>C4: the similarity of any text with itself is 1.\<close>

theorem similarity_reflexive: "calculate_similarity x x = Inr 1"
  by (simp add: calculate_similarity_def ratio_self)

section \<open>Properties of the structure analyzer\<close>

text \<open>
  \<open>ws_free sub\<close>: \<open>sub\<close> is not empty and holds no whitespace, as "container", "row" and
  "col-" do. For such a \<open>sub\<close>, the search by class matches an element exactly when its class
  attribute contains \<open>sub\<close>, and exactly when one of its class tokens does.
\<close>

definition ws_free :: "string \<Rightarrow> bool" where
  "ws_free s = (s \<noteq> [] \<and> list_all (\<lambda>c. \<not> py_isspace c) s)"

lemma startswith_append_ws:
  "list_all (\<lambda>c. \<not> py_isspace c) sub \<Longrightarrow> r = [] \<or> py_isspace (hd r) \<Longrightarrow>
   startswith (t @ r) sub = startswith t sub"
proof (induction t sub rule: startswith.induct)
  case (2 p ps)
  then show ?case by (cases r) auto
qed auto

lemma contains_nil: "sub \<noteq> [] \<Longrightarrow> \<not> contains [] sub"
  by simp

lemma contains_append_ws:
  "ws_free sub \<Longrightarrow> r = [] \<or> py_isspace (hd r) \<Longrightarrow>
   contains (t @ r) sub = (contains t sub \<or> contains r sub)"
proof (induction t)
  case Nil
  then show ?case by (simp add: ws_free_def)
next
  case (Cons x t)
  have "startswith ((x # t) @ r) sub = startswith (x # t) sub"
    using Cons.prems by (intro startswith_append_ws) (auto simp: ws_free_def)
  with Cons show ?case by auto
qed

lemma startswith_ws:
  "ws_free sub \<Longrightarrow> py_isspace c \<Longrightarrow> \<not> startswith (c # cs) sub"
  by (cases sub) (auto simp: ws_free_def)

lemma split_ws_contains:
  "ws_free sub \<Longrightarrow> list_ex (\<lambda>t. contains t sub) (split_ws v) = contains v sub"
proof (induction v rule: split_ws.induct)
  case 1
  then show ?case by (simp add: ws_free_def)
next
  case (2 c cs)
  show ?case
  proof (cases "py_isspace c")
    case True
    with 2 show ?thesis by (simp add: startswith_ws)
  next
    case False
    let ?t = "c # takeWhile (\<lambda>x. \<not> py_isspace x) cs"
    let ?r = "dropWhile (\<lambda>x. \<not> py_isspace x) cs"
    have r: "?r = [] \<or> py_isspace (hd ?r)"
      using hd_dropWhile [of "\<lambda>x. \<not> py_isspace x" cs] by auto
    have "c # cs = ?t @ ?r" by simp
    then have "contains (c # cs) sub = (contains ?t sub \<or> contains ?r sub)"
      using contains_append_ws [OF "2.prems" r, of ?t] by simp
    with 2 False show ?thesis by simp
  qed
qed

lemma list_all_takeWhile: "list_all P (takeWhile P xs)"
  by (induction xs) auto

lemma split_ws_tokens: "t \<in> set (split_ws v) \<Longrightarrow> t \<noteq> [] \<and> list_all (\<lambda>c. \<not> py_isspace c) t"
proof (induction v rule: split_ws.induct)
  case 1
  then show ?case by simp
next
  case (2 c cs)
  show ?case
  proof (cases "py_isspace c")
    case True
    with 2 show ?thesis by simp
  next
    case False
    with "2.prems" have "t = c # takeWhile (\<lambda>x. \<not> py_isspace x) cs
        \<or> t \<in> set (split_ws (dropWhile (\<lambda>x. \<not> py_isspace x) cs))"
      by simp
    then show ?thesis
    proof
      assume "t = c # takeWhile (\<lambda>x. \<not> py_isspace x) cs"
      with False show ?thesis by (simp add: list_all_takeWhile)
    next
      assume "t \<in> set (split_ws (dropWhile (\<lambda>x. \<not> py_isspace x) cs))"
      with "2.IH"(2) False show ?thesis by blast
    qed
  qed
qed

lemma join_space_contains:
  "ws_free sub \<Longrightarrow> (\<And>t. t \<in> set ts \<Longrightarrow> list_all (\<lambda>c. \<not> py_isspace c) t) \<Longrightarrow>
   contains (join_space ts) sub = list_ex (\<lambda>t. contains t sub) ts"
proof (induction ts rule: join_space.induct)
  case 1
  then show ?case by (simp add: ws_free_def)
next
  case (2 t)
  then show ?case by simp
next
  case (3 t u us)
  have sp: "py_isspace CHR '' ''" by (simp add: py_isspace_def)
  have "contains (t @ ('' '' @ join_space (u # us))) sub =
        (contains t sub \<or> contains ('' '' @ join_space (u # us)) sub)"
    using "3.prems"(1) sp by (intro contains_append_ws) auto
  moreover have "contains ('' '' @ join_space (u # us)) sub = contains (join_space (u # us)) sub"
    using "3.prems"(1) sp by (simp add: startswith_ws)
  ultimately show ?case using 3 by simp
qed

lemma matches_class:
  "ws_free sub \<Longrightarrow> strainer_matches (truthy_and_in sub) (class_value e) = class_attr_contains sub e"
proof (cases "attr_get e ''class''")
  case None
  then show ?thesis
    by (simp add: strainer_matches_def class_value_def class_attr_contains_def truthy_and_in_def)
next
  case (Some v)
  assume w: "ws_free sub"
  have tok: "list_ex (\<lambda>t. truthy_and_in sub (Some t)) (split_ws v) = list_ex (\<lambda>t. contains t sub) (split_ws v)"
    using split_ws_tokens by (auto simp: list_ex_iff truthy_and_in_def)
  have "contains (join_space (split_ws v)) sub = list_ex (\<lambda>t. contains t sub) (split_ws v)"
    using w split_ws_tokens by (intro join_space_contains) auto
  then have j: "truthy_and_in sub (Some (join_space (split_ws v))) \<Longrightarrow> list_ex (\<lambda>t. contains t sub) (split_ws v)"
    by (simp add: truthy_and_in_def)
  have "strainer_matches (truthy_and_in sub) (class_value e) = list_ex (\<lambda>t. contains t sub) (split_ws v)"
    using Some tok j by (auto simp: strainer_matches_def class_value_def)
  also have "\<dots> = contains v sub" by (rule split_ws_contains [OF w])
  also have "\<dots> = class_attr_contains sub e" using Some by (simp add: class_attr_contains_def)
  finally show ?thesis .
qed

lemma matches_class_token:
  "ws_free sub \<Longrightarrow> strainer_matches (truthy_and_in sub) (class_value e) = class_token_contains sub e"
  using split_ws_contains [of sub]
  by (simp add: matches_class class_attr_contains_def class_token_contains_def split: option.splits)

lemma analyze_Inl:
  "parser code = Inl e \<Longrightarrow> analyze_code_structure parser code = Inr None"
  by (simp add: analyze_code_structure_def try_except_def)

lemma analyze_total: "\<exists>r. analyze_code_structure parser code = Inr r"
  by (cases "parser code") (simp_all add: analyze_code_structure_def try_except_def)

text \<open>
  C8: none of the three core functions raises. The similarity returns a ratio for every
  two texts: its work list ends and it reads no index outside the texts. The analyzer
  returns the facts or the sentinel whatever the parser does. The indicator scorer has no
  operation that could raise and all its loops end, so it is a total function; on the empty
  text it returns the score 0 and no indicator, and the similarity of two empty texts is 1.
\<close>

theorem core_functions_total:
  "(\<exists>r. calculate_similarity text1 text2 = Inr r)
   \<and> (\<exists>r. analyze_code_structure parser code = Inr r)
   \<and> (\<exists>score indicators. check_ai_indicators code = (score, indicators))
   \<and> check_ai_indicators [] = (0, [])
   \<and> calculate_similarity [] [] = Inr 1"
proof -
  have "check_ai_indicators [] = (0, [])"
    by (simp add: check_ai_indicators_def ai_indicators_raw_def bootstrap_classes_def)
  moreover have "calculate_similarity [] [] = Inr 1"
    by (simp add: calculate_similarity_def ratio_self)
  moreover have "\<exists>score indicators. check_ai_indicators code = (score, indicators)"
    by (cases "check_ai_indicators code") simp
  ultimately show ?thesis
    using calculate_similarity_total analyze_total by blast
qed

end
